theory Spec2Isabelle
  imports Main "HOL-Library.Sublist" "HOL-Library.Multiset"
begin

section \<open>Python strings and integers\<close>

text \<open>
  A Python \<^verbatim>\<open>str\<close> is a sequence of code points. The model covers the code points below
  256: a \<^typ>\<open>char\<close> is the code point of that number, a \<^typ>\<open>string\<close> is a Python string made
  of such code points. The character tables below are the ones of CPython for this range.
\<close>

definition ord :: "char \<Rightarrow> nat" where
  "ord c = of_char c"

text \<open>\<^verbatim>\<open>str.isspace\<close>, which is also the class \<^verbatim>\<open>\s\<close> of the \<^verbatim>\<open>re\<close> module.\<close>

definition is_space :: "char \<Rightarrow> bool" where
  "is_space c = (ord c \<in> set [9, 10, 11, 12, 13, 28, 29, 30, 31, 32, 133, 160])"

text \<open>The class \<^verbatim>\<open>\d\<close>: the decimal digits.\<close>

definition is_digit :: "char \<Rightarrow> bool" where
  "is_digit c = (48 \<le> ord c \<and> ord c \<le> 57)"

text \<open>The class \<^verbatim>\<open>\w\<close>: alphanumeric code points and the underscore.\<close>

definition is_word :: "char \<Rightarrow> bool" where
  "is_word c = (let n = ord c in
     (48 \<le> n \<and> n \<le> 57) \<or> (65 \<le> n \<and> n \<le> 90) \<or> n = 95 \<or> (97 \<le> n \<and> n \<le> 122)
     \<or> n \<in> set [170, 178, 179, 181, 185, 186, 188, 189, 190]
     \<or> (192 \<le> n \<and> n \<noteq> 215 \<and> n \<noteq> 247))"

text \<open>\<^verbatim>\<open>str.lower\<close> on one code point.\<close>

definition lower :: "char \<Rightarrow> char" where
  "lower c = (let n = ord c in
     if (65 \<le> n \<and> n \<le> 90) \<or> (192 \<le> n \<and> n \<le> 222 \<and> n \<noteq> 215)
     then char_of (n + 32) else c)"

text \<open>
  \<^verbatim>\<open>str.upper\<close> on one code point. The upper-case forms of the code points 181, 223 and 255
  lie outside the modelled range; they are left unchanged here. The only caller,
  \<^verbatim>\<open>_parse_roman_numeral\<close>, gives the value 0 to every character other than I, V and X.
\<close>

definition upper :: "char \<Rightarrow> char" where
  "upper c = (let n = ord c in
     if (97 \<le> n \<and> n \<le> 122) \<or> (224 \<le> n \<and> n \<le> 254 \<and> n \<noteq> 247)
     then char_of (n - 32) else c)"

definition str_lower :: "string \<Rightarrow> string" where
  "str_lower s = map lower s"

definition str_upper :: "string \<Rightarrow> string" where
  "str_upper s = map upper s"

text \<open>\<^verbatim>\<open>str.strip()\<close> removes the white space at both ends.\<close>

definition strip :: "string \<Rightarrow> string" where
  "strip s = rev (dropWhile is_space (rev (dropWhile is_space s)))"

text \<open>\<^verbatim>\<open>kw in s\<close> on strings: \<open>kw\<close> occurs in \<open>s\<close> as a contiguous substring.\<close>

fun str_contains :: "string \<Rightarrow> string \<Rightarrow> bool" where
  "str_contains [] kw = (kw = [])"
| "str_contains (c # cs) kw = (prefix kw (c # cs) \<or> str_contains cs kw)"

text \<open>
  \<^verbatim>\<open>s.replace(old, new)\<close>: every occurrence of \<open>old\<close>, found from left to right without
  overlap, is replaced.
\<close>

function str_replace :: "string \<Rightarrow> string \<Rightarrow> string \<Rightarrow> string" where
  "str_replace old new s =
     (if old = [] then new @ concat (map (\<lambda>c. c # new) s)
      else if prefix old s then new @ str_replace old new (drop (length old) s)
      else (case s of [] \<Rightarrow> [] | c # cs \<Rightarrow> c # str_replace old new cs))"
  by pat_completeness auto
termination
  by (relation "measure (\<lambda>(old, new, s). length s)") (auto simp: prefix_def)

declare str_replace.simps [simp del]

text \<open>\<^verbatim>\<open>sep.join(parts)\<close>.\<close>

fun join :: "string \<Rightarrow> string list \<Rightarrow> string" where
  "join sep [] = []"
| "join sep [p] = p"
| "join sep (p # ps) = p @ sep @ join sep ps"

text \<open>
  \<^verbatim>\<open>str(n)\<close> for an integer, as the f-strings format it: decimal digits, with a minus sign
  for a negative number.
\<close>

definition digit_char :: "nat \<Rightarrow> char" where
  "digit_char n = ''0123456789'' ! n"

function digits_of :: "nat \<Rightarrow> string" where
  "digits_of n =
     (if n < 10 then [digit_char n] else digits_of (n div 10) @ [digit_char (n mod 10)])"
  by pat_completeness auto
termination
  by (relation "measure (\<lambda>n. n)") auto

declare digits_of.simps [simp del]

definition str_of_int :: "int \<Rightarrow> string" where
  "str_of_int i = (if i < 0 then CHR ''-'' # digits_of (nat (- i)) else digits_of (nat i))"

text \<open>
  \<^verbatim>\<open>int(s)\<close> on a string, base 10: white space is dropped at both ends (for \<^verbatim>\<open>int\<close> the code
  points 28 to 31 are not white space), then comes an optional sign and the digits, where single
  underscores may stand between two digits. Anything else raises \<^verbatim>\<open>ValueError\<close>, here
  \<open>None\<close>. So does a literal with more digits than the interpreter's limit
  \<^verbatim>\<open>sys.int_info.default_max_str_digits\<close>, which is 4300: leading zeros count, underscores,
  the sign and the white space do not.
\<close>

definition max_str_digits :: nat where
  "max_str_digits = 4300"

definition is_int_space :: "char \<Rightarrow> bool" where
  "is_int_space c = (ord c \<in> set [9, 10, 11, 12, 13, 32, 133, 160])"

fun int_literal :: "string \<Rightarrow> bool" where
  "int_literal [] = False"
| "int_literal [c] = is_digit c"
| "int_literal (c # d # r) =
     (is_digit c \<and> (if d = CHR ''_'' then int_literal r else int_literal (d # r)))"

definition dec_value :: "string \<Rightarrow> nat" where
  "dec_value ds = fold (\<lambda>c n. 10 * n + (ord c - 48)) ds 0"

definition py_int :: "string \<Rightarrow> int option" where
  "py_int s =
     (let t = rev (dropWhile is_int_space (rev (dropWhile is_int_space s)));
          neg = (case t of [] \<Rightarrow> False | c # _ \<Rightarrow> c = CHR ''-'');
          body = (case t of [] \<Rightarrow> [] | c # r \<Rightarrow> if c = CHR ''-'' \<or> c = CHR ''+'' then r else t);
          ds = filter is_digit body
      in if int_literal body \<and> length ds \<le> max_str_digits
         then Some (if neg then - int (dec_value ds) else int (dec_value ds))
         else None)"

text \<open>The exceptions the modelled code can raise.\<close>

datatype py_error = AttributeError | IndexError | ValueError | TypeError

section \<open>The regular expressions of Python's re module\<close>

text \<open>
  The patterns of the code use character classes, sequences, alternatives, greedy optional
  parts, greedy repetitions of one character class, capture groups and the anchors
  \<^verbatim>\<open>^\<close>, \<^verbatim>\<open>$\<close> and \<^verbatim>\<open>\b\<close>. \<open>Rep lo hi p\<close> is the repetition of the class \<open>p\<close>, at least \<open>lo\<close>
  and at most \<open>hi\<close> times (no upper bound for \<open>None\<close>).
\<close>

datatype regex =
    Cls "char \<Rightarrow> bool"
  | Seq regex regex
  | Alt regex regex
  | Opt regex
  | Rep nat "nat option" "char \<Rightarrow> bool"
  | Grp nat regex
  | Bol
  | Eol
  | Wordb

text \<open>
  A position in the subject string: the character before it (\<open>None\<close> at the start of the
  string) and the text from the position on. The groups captured so far are an association
  list, the latest capture first.
\<close>

type_synonym cursor = "char option \<times> string"
type_synonym groups = "(nat \<times> string) list"

text \<open>
  The positions a greedy repetition of a class can stop at, the longest first: the matcher
  takes as many characters as it can and gives them back one at a time.
\<close>

fun rep_ends :: "(char \<Rightarrow> bool) \<Rightarrow> nat option \<Rightarrow> cursor \<Rightarrow> cursor list" where
  "rep_ends p hi (pv, []) = [(pv, [])]"
| "rep_ends p hi (pv, c # cs) =
     (if p c \<and> hi \<noteq> Some 0
      then rep_ends p (map_option (\<lambda>n. n - 1) hi) (Some c, cs) @ [(pv, c # cs)]
      else [(pv, c # cs)])"

text \<open>
  The backtracking matcher of \<^verbatim>\<open>re\<close>: all the ways a pattern matches at a position, in the
  order in which the matcher tries them. The first one is the match that \<^verbatim>\<open>re\<close> reports.
  \<^verbatim>\<open>^\<close> matches at the start of the string, \<^verbatim>\<open>$\<close> at its end and before a newline that ends
  it (no \<^verbatim>\<open>MULTILINE\<close> flag is used), \<^verbatim>\<open>\b\<close> between a word character and a non-word
  character or an end of the string.
\<close>

fun rmatch :: "regex \<Rightarrow> groups \<times> cursor \<Rightarrow> (groups \<times> cursor) list" where
  "rmatch (Cls p) (g, pv, s) =
     (case s of [] \<Rightarrow> [] | c # cs \<Rightarrow> if p c then [(g, Some c, cs)] else [])"
| "rmatch (Seq a b) x = concat (map (rmatch b) (rmatch a x))"
| "rmatch (Alt a b) x = rmatch a x @ rmatch b x"
| "rmatch (Opt a) x = rmatch a x @ [x]"
| "rmatch (Rep lo hi p) (g, cur) =
     (let ends = rep_ends p hi cur in map (Pair g) (take (length ends - lo) ends))"
| "rmatch (Grp n a) (g, pv, s) =
     map (\<lambda>(g', pv', s'). ((n, take (length s - length s') s) # g', pv', s'))
       (rmatch a (g, pv, s))"
| "rmatch Bol (g, pv, s) = (if pv = None then [(g, pv, s)] else [])"
| "rmatch Eol (g, pv, s) = (if s = [] \<or> s = [CHR 0x0A] then [(g, pv, s)] else [])"
| "rmatch Wordb (g, pv, s) =
     (if (case pv of None \<Rightarrow> False | Some c \<Rightarrow> is_word c)
         \<noteq> (case s of [] \<Rightarrow> False | c # _ \<Rightarrow> is_word c)
      then [(g, pv, s)] else [])"

text \<open>
  The scan of \<^verbatim>\<open>search\<close>: the first position, from the left, at which the pattern matches.
  The result is the text skipped before the match, the captured groups and the position after
  the match.
\<close>

fun search_from :: "regex \<Rightarrow> cursor \<Rightarrow> (string \<times> groups \<times> cursor) option" where
  "search_from r (pv, s) =
     (case rmatch r ([], pv, s) of
        x # _ \<Rightarrow> Some ([], x)
      | [] \<Rightarrow> (case s of
                [] \<Rightarrow> None
              | c # cs \<Rightarrow> map_option (\<lambda>(skipped, x). (c # skipped, x)) (search_from r (Some c, cs))))"

declare search_from.simps [simp del]

text \<open>\<^verbatim>\<open>pattern.search(s)\<close>: the groups of the first match, \<open>None\<close> without a match.\<close>

definition re_search :: "regex \<Rightarrow> string \<Rightarrow> groups option" where
  "re_search r s = map_option (\<lambda>(skipped, g, cur). g) (search_from r (None, s))"

text \<open>\<^verbatim>\<open>match.group(n)\<close>: \<open>None\<close> for a group that took no part in the match.\<close>

definition group :: "groups \<Rightarrow> nat \<Rightarrow> string option" where
  "group g n = map_of g n"

text \<open>
  \<^verbatim>\<open>re.sub(pattern, repl, s)\<close> for a replacement without group references: the matches are
  found from left to right and replaced. After a match the scan goes on where the match ended
  and stops if that is the end of the string; after an empty match the next match at the same
  position must not be empty (the flag \<open>adv\<close>).
\<close>

function re_sub_from :: "regex \<Rightarrow> string \<Rightarrow> bool \<Rightarrow> cursor \<Rightarrow> string" where
  "re_sub_from r repl adv (pv, s) =
     (case List.find (\<lambda>(g, pv', s'). if adv then length s' < length s else True)
             (rmatch r ([], pv, s)) of
        None \<Rightarrow> (case s of [] \<Rightarrow> [] | c # cs \<Rightarrow> c # re_sub_from r repl False (Some c, cs))
      | Some (g, pv', s') \<Rightarrow>
          repl @ (if s' = [] then []
                  else if length s' < length s then re_sub_from r repl False (pv', s')
                  else if adv then [] else re_sub_from r repl True (pv, s)))"
  by pat_completeness auto
termination
  by (relation "measure (\<lambda>(r, repl, adv, pv, s). 2 * length s + (if adv then 0 else 1))") auto

declare re_sub_from.simps [simp del]

definition re_sub :: "regex \<Rightarrow> string \<Rightarrow> string \<Rightarrow> string" where
  "re_sub r repl s = re_sub_from r repl False (None, s)"

text \<open>How the patterns are written.\<close>

fun seqs :: "regex list \<Rightarrow> regex" where
  "seqs [] = Rep 0 (Some 0) (\<lambda>c. False)"
| "seqs [r] = r"
| "seqs (r # rs) = Seq r (seqs rs)"

fun alts :: "regex list \<Rightarrow> regex" where
  "alts [] = Cls (\<lambda>c. False)"
| "alts [r] = r"
| "alts (r # rs) = Alt r (alts rs)"

text \<open>A literal character; with the flag \<^verbatim>\<open>IGNORECASE\<close> it matches both cases.\<close>

definition chr :: "char \<Rightarrow> regex" where
  "chr a = Cls (\<lambda>c. c = a)"

definition ichr :: "char \<Rightarrow> regex" where
  "ichr a = Cls (\<lambda>c. lower c = lower a)"

definition lit :: "string \<Rightarrow> regex" where
  "lit w = seqs (map chr w)"

definition ilit :: "string \<Rightarrow> regex" where
  "ilit w = seqs (map ichr w)"

text \<open>The classes \<^verbatim>\<open>[...]\<close>, \<^verbatim>\<open>[^...]\<close>, \<^verbatim>\<open>[...]\<close> under \<^verbatim>\<open>IGNORECASE\<close>, and the dot.\<close>

definition one_of :: "string \<Rightarrow> char \<Rightarrow> bool" where
  "one_of w c = (c \<in> set w)"

definition none_of :: "string \<Rightarrow> char \<Rightarrow> bool" where
  "none_of w c = (c \<notin> set w)"

definition i_one_of :: "string \<Rightarrow> char \<Rightarrow> bool" where
  "i_one_of w c = (lower c \<in> set (map lower w))"

definition any_char :: "char \<Rightarrow> bool" where
  "any_char c = (c \<noteq> CHR 0x0A)"

definition ascii_alnum :: "char \<Rightarrow> bool" where
  "ascii_alnum c = ((65 \<le> ord c \<and> ord c \<le> 90) \<or> (97 \<le> ord c \<and> ord c \<le> 122) \<or> (48 \<le> ord c \<and> ord c \<le> 57))"

definition ascii_lower :: "char \<Rightarrow> bool" where
  "ascii_lower c = (97 \<le> ord c \<and> ord c \<le> 122)"

definition many :: "(char \<Rightarrow> bool) \<Rightarrow> regex" where
  "many p = Rep 0 None p"

definition many1 :: "(char \<Rightarrow> bool) \<Rightarrow> regex" where
  "many1 p = Rep 1 None p"


section \<open>metadata.py: the field extractors\<close>

text \<open>
  The table \<^verbatim>\<open>PATTERNS\<close>, one constant for each key. All patterns but the two for the
  release group are compiled with \<^verbatim>\<open>IGNORECASE\<close>.
\<close>

definition PATTERNS_release_group_start :: regex where
  "PATTERNS_release_group_start =
     alts [seqs [Bol, chr CHR ''['', Grp 1 (many1 (none_of '']'')), chr CHR '']''],
           seqs [Bol, chr CHR ''('', Grp 2 (many1 (none_of '')'')), chr CHR '')'']]"

definition PATTERNS_release_group_end :: regex where
  "PATTERNS_release_group_end =
     seqs [chr CHR ''-'', Grp 1 (many1 ascii_alnum),
           Opt (seqs [chr CHR ''.'', Rep 2 (Some 4) ascii_lower]), Eol]"

definition PATTERNS_season :: regex where
  "PATTERNS_season =
     seqs [alts [ilit ''S'', seqs [ilit ''Season'', Opt (Cls is_space)]], Grp 1 (many1 is_digit)]"

definition PATTERNS_season_part :: regex where
  "PATTERNS_season_part = seqs [ilit ''Part'', many1 is_space, Grp 1 (many1 is_digit)]"

definition PATTERNS_season_cour :: regex where
  "PATTERNS_season_cour = seqs [ilit ''Cour'', many1 is_space, Grp 1 (many1 is_digit)]"

definition PATTERNS_season_ordinal_num :: regex where
  "PATTERNS_season_ordinal_num =
     seqs [Grp 1 (many1 is_digit), alts [ilit ''st'', ilit ''nd'', ilit ''rd'', ilit ''th''],
           many1 is_space, ilit ''Season'']"

definition PATTERNS_season_ordinal_word :: regex where
  "PATTERNS_season_ordinal_word =
     seqs [Grp 1 (alts [ilit ''First'', ilit ''Second'', ilit ''Third'', ilit ''Fourth'',
                        ilit ''Fifth'', ilit ''Sixth'', ilit ''Seventh'', ilit ''Eighth'',
                        ilit ''Ninth'', ilit ''Tenth'']),
           many1 is_space, ilit ''Season'']"

definition PATTERNS_season_roman :: regex where
  "PATTERNS_season_roman =
     seqs [ilit ''Season'', many1 is_space, Grp 1 (many1 (i_one_of ''IVX'')), Wordb]"

definition PATTERNS_episode :: regex where
  "PATTERNS_episode =
     alts [seqs [alts [ilit ''E'',
                       seqs [ilit ''Ep'', Opt (chr CHR ''.''), Opt (Cls is_space)],
                       seqs [ilit ''Episode'', Opt (Cls is_space)]],
                 Grp 1 (many1 is_digit)],
           seqs [Cls (\<lambda>c. is_space c \<or> c = CHR ''-''), Opt (Cls is_space),
                 Grp 2 (Rep 2 (Some 3) is_digit),
                 alts [Cls is_space, Eol, chr CHR ''['', chr CHR ''('']]]"

definition PATTERNS_quality :: regex where
  "PATTERNS_quality =
     Grp 1 (alts [ilit ''4K'', ilit ''2160p'', ilit ''1080p'', ilit ''720p'', ilit ''480p'',
                  ilit ''360p'', ilit ''FHD'', ilit ''HD'', ilit ''1920x1080'', ilit ''1280x720'',
                  ilit ''SD''])"

definition PATTERNS_audio_english :: regex where
  "PATTERNS_audio_english =
     Grp 1 (alts [seqs [ilit ''English'', many is_space, ilit ''Dub''],
                  seqs [ilit ''Eng'', many is_space, ilit ''Dub''],
                  ilit ''Dubbed'',
                  seqs [ilit ''Dual'', many is_space, ilit ''Audio''],
                  seqs [Wordb, ilit ''DUAL'', Wordb],
                  seqs [Wordb, ilit ''Dub'', Wordb]])"

definition PATTERNS_audio_japanese :: regex where
  "PATTERNS_audio_japanese =
     Grp 1 (alts [ilit ''Japanese'', ilit ''JPN'', ilit ''Raw'', seqs [Wordb, ilit ''Jap'', Wordb]])"

definition PATTERNS_sub_english :: regex where
  "PATTERNS_sub_english =
     Grp 1 (alts [seqs [ilit ''English'', many is_space, ilit ''Sub''],
                  seqs [ilit ''Eng'', many is_space, ilit ''Sub''],
                  ilit ''Subbed'',
                  seqs [Wordb, ilit ''Sub'', Wordb],
                  ilit ''[Eng]'',
                  ilit ''English''])"

definition PATTERNS_sub_multi :: regex where
  "PATTERNS_sub_multi =
     Grp 1 (alts [seqs [ilit ''Multi'', Opt (chr CHR ''-''), ilit ''Sub''], ilit ''MultiSub''])"

text \<open>\<^verbatim>\<open>a or b\<close> on two optional strings: \<open>a\<close> unless it is \<^verbatim>\<open>None\<close> or empty.\<close>

definition str_or :: "string option \<Rightarrow> string option \<Rightarrow> string option" where
  "str_or a b = (case a of None \<Rightarrow> b | Some s \<Rightarrow> if s = [] then b else Some s)"

text \<open>
  \<^verbatim>\<open>int\<close> of a group of a match: \<^verbatim>\<open>TypeError\<close> for a group that took no part in the
  match, \<^verbatim>\<open>ValueError\<close> for a string that \<^verbatim>\<open>int\<close> does not accept, among them the runs of
  more than 4300 digits.
\<close>

definition int_of_digits :: "string option \<Rightarrow> py_error + int" where
  "int_of_digits ds =
     (case ds of
        None \<Rightarrow> Inl TypeError
      | Some d \<Rightarrow> (case py_int d of None \<Rightarrow> Inl ValueError | Some n \<Rightarrow> Inr n))"

definition the_str :: "string option \<Rightarrow> string" where
  "the_str a = (case a of None \<Rightarrow> [] | Some s \<Rightarrow> s)"

definition extract_release_group :: "string \<Rightarrow> string" where
  "extract_release_group title =
     (case re_search PATTERNS_release_group_start title of
        Some m \<Rightarrow> the_str (str_or (group m 1) (group m 2))
      | None \<Rightarrow>
          (case re_search PATTERNS_release_group_end title of
             Some m \<Rightarrow> the_str (group m 1)
           | None \<Rightarrow> ''Unknown''))"

definition ORDINAL_WORDS :: "(string \<times> int) list" where
  "ORDINAL_WORDS =
     [(''first'', 1), (''second'', 2), (''third'', 3), (''fourth'', 4), (''fifth'', 5),
      (''sixth'', 6), (''seventh'', 7), (''eighth'', 8), (''ninth'', 9), (''tenth'', 10)]"

definition parse_ordinal_word :: "string \<Rightarrow> int" where
  "parse_ordinal_word word =
     (case map_of ORDINAL_WORDS (str_lower word) of None \<Rightarrow> 1 | Some n \<Rightarrow> n)"

definition roman_values :: "char \<Rightarrow> int" where
  "roman_values c =
     (if c = CHR ''I'' then 1 else if c = CHR ''V'' then 5 else if c = CHR ''X'' then 10 else 0)"

text \<open>The loop of \<^verbatim>\<open>_parse_roman_numeral\<close> over the reversed numeral; the state is \<open>(result, prev_value)\<close>.\<close>

fun roman_loop :: "string \<Rightarrow> int \<times> int \<Rightarrow> int \<times> int" where
  "roman_loop [] (result, prev_value) = (result, prev_value)"
| "roman_loop (c # cs) (result, prev_value) =
     (let v = roman_values c in
      roman_loop cs (if v < prev_value then result - v else result + v, v))"

definition parse_roman_numeral :: "string \<Rightarrow> int" where
  "parse_roman_numeral roman =
     (let result = fst (roman_loop (rev (str_upper roman)) (0, 0)) in
      if result > 0 then result else 1)"

text \<open>
  \<^verbatim>\<open>_extract_season_number\<close>: the six strategies in the order of the source. No conversion
  is guarded, so an exception of \<^verbatim>\<open>int\<close> leaves the function.
\<close>

definition extract_season_number :: "string \<Rightarrow> py_error + int option" where
  "extract_season_number text =
     (case re_search PATTERNS_season text of
        Some m \<Rightarrow> (case int_of_digits (group m 1) of Inl e \<Rightarrow> Inl e | Inr n \<Rightarrow> Inr (Some n))
      | None \<Rightarrow>
     (case re_search PATTERNS_season_ordinal_num text of
        Some m \<Rightarrow> (case int_of_digits (group m 1) of Inl e \<Rightarrow> Inl e | Inr n \<Rightarrow> Inr (Some n))
      | None \<Rightarrow>
     (case re_search PATTERNS_season_ordinal_word text of
        Some m \<Rightarrow> Inr (Some (parse_ordinal_word (the_str (group m 1))))
      | None \<Rightarrow>
     (case re_search PATTERNS_season_roman text of
        Some m \<Rightarrow> Inr (Some (parse_roman_numeral (the_str (group m 1))))
      | None \<Rightarrow>
     (case re_search PATTERNS_season_part text of
        Some m \<Rightarrow> (case int_of_digits (group m 1) of Inl e \<Rightarrow> Inl e | Inr n \<Rightarrow> Inr (Some n))
      | None \<Rightarrow>
     (case re_search PATTERNS_season_cour text of
        Some m \<Rightarrow> (case int_of_digits (group m 1) of Inl e \<Rightarrow> Inl e | Inr n \<Rightarrow> Inr (Some n))
      | None \<Rightarrow> Inr None))))))"

definition extract_season :: "string \<Rightarrow> string \<Rightarrow> py_error + string" where
  "extract_season title description =
     (case extract_season_number title of
        Inl e \<Rightarrow> Inl e
      | Inr (Some season_num) \<Rightarrow> Inr (''Season '' @ str_of_int season_num)
      | Inr None \<Rightarrow>
          (case extract_season_number description of
             Inl e \<Rightarrow> Inl e
           | Inr (Some season_num) \<Rightarrow> Inr (''Season '' @ str_of_int season_num)
           | Inr None \<Rightarrow> Inr ''Season 1''))"

definition extract_episode :: "string \<Rightarrow> py_error + string" where
  "extract_episode title =
     (case re_search PATTERNS_episode title of
        Some m \<Rightarrow>
          (case int_of_digits (str_or (group m 1) (group m 2)) of
             Inl e \<Rightarrow> Inl e
           | Inr n \<Rightarrow> Inr (''Episode '' @ str_of_int n))
      | None \<Rightarrow> Inr '''')"

definition extract_quality :: "string \<Rightarrow> string \<Rightarrow> string" where
  "extract_quality title description =
     (case re_search PATTERNS_quality title of
        Some m \<Rightarrow> the_str (group m 1)
      | None \<Rightarrow>
          (case re_search PATTERNS_quality description of
             Some m \<Rightarrow> the_str (group m 1)
           | None \<Rightarrow> ''Unknown''))"

definition extract_audio_language :: "string \<Rightarrow> string \<Rightarrow> string \<Rightarrow> string" where
  "extract_audio_language title description category =
     (let combined = title @ '' '' @ description in
      if re_search PATTERNS_audio_english combined \<noteq> None then ''English''
      else if re_search PATTERNS_audio_japanese combined \<noteq> None then ''Japanese''
      else if str_contains category ''Raw'' then ''Japanese''
      else ''Japanese'')"

definition extract_subtitle_language :: "string \<Rightarrow> string \<Rightarrow> string \<Rightarrow> string" where
  "extract_subtitle_language title description category =
     (let combined = title @ '' '' @ description in
      if re_search PATTERNS_sub_multi combined \<noteq> None then ''Multi''
      else if re_search PATTERNS_sub_english combined \<noteq> None then ''English''
      else if str_contains category ''English-translated'' then ''English''
      else if str_contains category ''Raw'' then ''None''
      else ''Unknown'')"

text \<open>The patterns of \<^verbatim>\<open>extract_anime_name\<close>, in the order of their use.\<close>

definition name_season :: regex where
  "name_season =
     seqs [many is_space, alts [ilit ''S'', seqs [ilit ''Season'', Opt (Cls is_space)]],
           many1 is_digit, many any_char]"

definition name_ordinal_num :: regex where
  "name_ordinal_num =
     seqs [many is_space, many1 is_digit, alts [ilit ''st'', ilit ''nd'', ilit ''rd'', ilit ''th''],
           many1 is_space, ilit ''Season'', many any_char]"

definition name_ordinal_word :: regex where
  "name_ordinal_word =
     seqs [many is_space,
           alts [ilit ''First'', ilit ''Second'', ilit ''Third'', ilit ''Fourth'', ilit ''Fifth'',
                 ilit ''Sixth'', ilit ''Seventh'', ilit ''Eighth'', ilit ''Ninth'', ilit ''Tenth''],
           many1 is_space, ilit ''Season'', many any_char]"

definition name_roman :: regex where
  "name_roman =
     seqs [many is_space, ilit ''Season'', many1 is_space, many1 (i_one_of ''IVX''), Wordb,
           many any_char]"

definition name_part :: regex where
  "name_part = seqs [many is_space, ilit ''Part'', many1 is_space, many1 is_digit, many any_char]"

definition name_cour :: regex where
  "name_cour = seqs [many is_space, ilit ''Cour'', many1 is_space, many1 is_digit, many any_char]"

definition name_episode :: regex where
  "name_episode =
     seqs [many is_space,
           alts [ilit ''E'',
                 seqs [ilit ''Ep'', Opt (chr CHR ''.''), Opt (Cls is_space)],
                 seqs [ilit ''Episode'', Opt (Cls is_space)]],
           many1 is_digit, many any_char]"

definition name_dash_number :: regex where
  "name_dash_number =
     seqs [many is_space, chr CHR ''-'', many is_space, many1 is_digit, many any_char]"

definition name_last_bracket :: regex where
  "name_last_bracket =
     seqs [many is_space, Cls (one_of ''[(''), many (none_of ''])''), Cls (one_of ''])''),
           many is_space, Eol]"

definition name_bracket_tail :: regex where
  "name_bracket_tail = seqs [many is_space, Cls (one_of ''[(''), many any_char, Eol]"

definition extract_anime_name :: "string \<Rightarrow> string" where
  "extract_anime_name title =
     (let name = strip (re_sub PATTERNS_release_group_start '''' title);
          name = re_sub name_season '''' name;
          name = re_sub name_ordinal_num '''' name;
          name = re_sub name_ordinal_word '''' name;
          name = re_sub name_roman '''' name;
          name = re_sub name_part '''' name;
          name = re_sub name_cour '''' name;
          name = re_sub name_episode '''' name;
          name = re_sub name_dash_number '''' name;
          name = re_sub name_last_bracket '''' name;
          name = re_sub name_bracket_tail '''' name;
          name = strip name
      in if name = [] then ''Unknown'' else name)"


section \<open>models.py\<close>

record TorrentMetadata =
  anime_name :: string
  season :: string
  episode :: string
  quality :: string
  audio_language :: string
  subtitle_language :: string
  release_group :: string
  description :: string

text \<open>The defaults of the dataclass fields: \<^verbatim>\<open>TorrentMetadata()\<close>.\<close>

definition TorrentMetadata_defaults :: TorrentMetadata where
  "TorrentMetadata_defaults =
     \<lparr>anime_name = ''Unknown'', season = ''Season 1'', episode = '''', quality = ''Unknown'',
      audio_language = ''Unknown'', subtitle_language = ''Unknown'', release_group = ''Unknown'',
      description = ''''\<rparr>"

definition group_key :: "TorrentMetadata \<Rightarrow> string" where
  "group_key m =
     release_group m @ ''|'' @ anime_name m @ ''|'' @ season m @ ''|'' @ audio_language m @ ''|''
     @ subtitle_language m @ ''|'' @ TorrentMetadata.quality m"

definition group_name :: "TorrentMetadata \<Rightarrow> string" where
  "group_name m =
     (let parts = [release_group m, anime_name m, season m];
          parts = (if audio_language m \<noteq> [] \<and> audio_language m \<noteq> ''Unknown''
                   then parts @ [''DUB '' @ audio_language m] else parts);
          parts = (if subtitle_language m \<noteq> [] \<and> subtitle_language m \<noteq> ''Unknown''
                   then parts @ [''SUB '' @ subtitle_language m] else parts);
          parts = (if TorrentMetadata.quality m \<noteq> [] \<and> TorrentMetadata.quality m \<noteq> ''Unknown''
                   then parts @ [''QUALITY '' @ TorrentMetadata.quality m] else parts)
      in join '' - '' parts)"

record Torrent =
  torrent_id :: string
  name :: string
  magnet :: string
  torrent_url :: string
  size_label :: string
  date :: string
  seeders :: int
  leechers :: int
  downloads :: int
  category :: string
  submitter :: string
  metadata :: "TorrentMetadata option"

record TorrentGroup =
  name :: string
  description :: string
  torrents :: "Torrent list"
  episode_range :: string
  quality :: string
  is_dubbed :: bool

definition total_seeders :: "TorrentGroup \<Rightarrow> int" where
  "total_seeders g = sum_list (map seeders (torrents g))"

section \<open>utils.py\<close>

definition DUB_KEYWORDS :: "string list" where
  "DUB_KEYWORDS = [''dub'', ''dubbed'', ''dual audio'', ''dual'', ''english dub'']"

definition contains_dub_keywords :: "string \<Rightarrow> bool" where
  "contains_dub_keywords nm = (let name_lower = str_lower nm in list_ex (str_contains name_lower) DUB_KEYWORDS)"

section \<open>metadata.py: the metadata record of a detail page\<close>

text \<open>
  The detail record is a dictionary; \<^verbatim>\<open>detail.get(key, default)\<close> gives the default for a
  missing key.
\<close>

definition dict_get :: "(string \<rightharpoonup> string) \<Rightarrow> string \<Rightarrow> string \<Rightarrow> string" where
  "dict_get d k dflt = (case d k of None \<Rightarrow> dflt | Some v \<Rightarrow> v)"

text \<open>
  The arguments of the constructor are evaluated in the order written; \<^verbatim>\<open>extract_season\<close>
  and \<^verbatim>\<open>extract_episode\<close> are the two that can raise, and nothing catches their exception.
\<close>

definition extract_metadata_from_detail :: "(string \<rightharpoonup> string) \<Rightarrow> py_error + TorrentMetadata" where
  "extract_metadata_from_detail detail =
     (let title = dict_get detail ''title'' '''';
          descr = dict_get detail ''description'' '''';
          categ = dict_get detail ''category'' '''';
          subm = dict_get detail ''submitter'' ''Anonymous'';
          rgroup = (if subm \<noteq> [] \<and> subm \<noteq> ''Anonymous'' then subm
                    else extract_release_group title)
      in case extract_season title descr of
           Inl e \<Rightarrow> Inl e
         | Inr season_label \<Rightarrow>
             (case extract_episode title of
                Inl e \<Rightarrow> Inl e
              | Inr episode_label \<Rightarrow>
                  Inr \<lparr>anime_name = extract_anime_name title,
                       season = season_label,
                       episode = episode_label,
                       quality = extract_quality title descr,
                       audio_language = extract_audio_language title descr categ,
                       subtitle_language = extract_subtitle_language title descr categ,
                       release_group = rgroup,
                       description = (if descr \<noteq> [] then take 200 descr else '''')\<rparr>))"

section \<open>grouper.py\<close>

text \<open>
  The first loop of \<^verbatim>\<open>group_torrents_deterministic\<close> assigns, in place, a fallback record to
  every torrent without metadata. The model returns the torrent as it is after the assignment.
\<close>

definition ensure_metadata :: "string \<Rightarrow> Torrent \<Rightarrow> Torrent" where
  "ensure_metadata anime torrent =
     (case metadata torrent of
        None \<Rightarrow> torrent\<lparr>metadata := Some (TorrentMetadata_defaults\<lparr>anime_name := anime\<rparr>)\<rparr>
      | Some _ \<Rightarrow> torrent)"

text \<open>
  \<^verbatim>\<open>groups_dict[key].append(torrent)\<close> on a \<^verbatim>\<open>defaultdict(list)\<close>. A Python dictionary keeps
  its keys in the order of their first insertion, so it is an association list here: a new key
  goes to the end with a one-element bucket, a known key has the torrent appended to its bucket.
\<close>

fun dict_append :: "(string \<times> Torrent list) list \<Rightarrow> string \<Rightarrow> Torrent \<Rightarrow> (string \<times> Torrent list) list" where
  "dict_append [] k t = [(k, [t])]"
| "dict_append ((k', ts) # d) k t =
     (if k' = k then (k', ts @ [t]) # d else (k', ts) # dict_append d k t)"

text \<open>The second loop; \<^verbatim>\<open>torrent.metadata.group_key()\<close> raises on a torrent without metadata.\<close>

fun fill_groups_dict :: "(string \<times> Torrent list) list \<Rightarrow> Torrent list \<Rightarrow> py_error + (string \<times> Torrent list) list" where
  "fill_groups_dict d [] = Inr d"
| "fill_groups_dict d (torrent # rest) =
     (case metadata torrent of
        None \<Rightarrow> Inl AttributeError
      | Some m \<Rightarrow> fill_groups_dict (dict_append d (group_key m) torrent) rest)"

text \<open>The episode numbers of a bucket, in the order of its torrents.\<close>

fun collect_episodes :: "Torrent list \<Rightarrow> int list" where
  "collect_episodes [] = []"
| "collect_episodes (t # ts) =
     (case metadata t of
        None \<Rightarrow> collect_episodes ts
      | Some m \<Rightarrow>
          if episode m \<noteq> [] then
            (case py_int (str_replace ''Episode '' '''' (episode m)) of
               Some n \<Rightarrow> n # collect_episodes ts
             | None \<Rightarrow> collect_episodes ts)
          else collect_episodes ts)"

text \<open>\<^verbatim>\<open>min\<close> and \<^verbatim>\<open>max\<close> of a list, called on non-empty lists only.\<close>

definition py_min :: "int list \<Rightarrow> int" where
  "py_min xs = fold min (tl xs) (hd xs)"

definition py_max :: "int list \<Rightarrow> int" where
  "py_max xs = fold max (tl xs) (hd xs)"

definition episode_range_of :: "Torrent list \<Rightarrow> string" where
  "episode_range_of torrent_list =
     (let episodes = collect_episodes torrent_list in
      if episodes \<noteq> [] then
        (let episodes = sort episodes in
         if length episodes = 1 then ''Episode '' @ str_of_int (hd episodes)
         else ''Episodes '' @ str_of_int (py_min episodes) @ ''-'' @ str_of_int (py_max episodes))
      else ''Various'')"

text \<open>The body of the third loop: the group of one bucket.\<close>

definition make_group :: "Torrent list \<Rightarrow> py_error + TorrentGroup" where
  "make_group torrent_list =
     (case torrent_list of
        [] \<Rightarrow> Inl IndexError
      | first # _ \<Rightarrow>
          (case metadata first of
             None \<Rightarrow> Inl AttributeError
           | Some m \<Rightarrow>
               Inr \<lparr>name = group_name m,
                    description = ''Release group: '' @ release_group m @ '', Quality: ''
                      @ TorrentMetadata.quality m @ '', Audio: '' @ audio_language m
                      @ '', Subs: '' @ subtitle_language m,
                    torrents = torrent_list,
                    episode_range = episode_range_of torrent_list,
                    quality = TorrentMetadata.quality m,
                    is_dubbed = (str_lower (audio_language m) = ''english''
                                 \<or> list_ex (\<lambda>t. contains_dub_keywords (Torrent.name t)) torrent_list)\<rparr>))"

fun make_groups :: "(string \<times> Torrent list) list \<Rightarrow> py_error + TorrentGroup list" where
  "make_groups [] = Inr []"
| "make_groups ((key, torrent_list) # d) =
     (case make_group torrent_list of
        Inl e \<Rightarrow> Inl e
      | Inr g \<Rightarrow> (case make_groups d of Inl e \<Rightarrow> Inl e | Inr gs \<Rightarrow> Inr (g # gs)))"

text \<open>
  \<^verbatim>\<open>groups.sort(key=lambda g: g.total_seeders, reverse=True)\<close>. Python's sort is stable, also
  with \<^verbatim>\<open>reverse=True\<close>: the result is in descending key order and elements with equal keys
  keep their order. That is the stable insertion sort on the negated key.
\<close>

definition sort_by_seeders_desc :: "TorrentGroup list \<Rightarrow> TorrentGroup list" where
  "sort_by_seeders_desc groups = sort_key (\<lambda>g. - total_seeders g) groups"

text \<open>
  \<^verbatim>\<open>group_torrents_deterministic(torrents, anime_name)\<close>. The result is the returned list of
  groups together with the argument list as the call leaves it (its torrents are updated in
  place, and the groups hold these same torrents).
\<close>

definition group_torrents_deterministic ::
  "Torrent list \<Rightarrow> string \<Rightarrow> py_error + (TorrentGroup list \<times> Torrent list)" where
  "group_torrents_deterministic torrent_list anime =
     (if torrent_list = [] then Inr ([], torrent_list)
      else
        (let torrent_list = map (ensure_metadata anime) torrent_list in
         case fill_groups_dict [] torrent_list of
           Inl e \<Rightarrow> Inl e
         | Inr groups_dict \<Rightarrow>
             (case make_groups groups_dict of
                Inl e \<Rightarrow> Inl e
              | Inr groups \<Rightarrow> Inr (sort_by_seeders_desc groups, torrent_list))))"

section \<open>Notions used to state the properties\<close>

text \<open>The grouping key of a torrent (the empty string for a torrent without metadata).\<close>

definition key_of :: "Torrent \<Rightarrow> string" where
  "key_of t = (case metadata t of None \<Rightarrow> [] | Some m \<Rightarrow> group_key m)"

text \<open>The elements of a list in the order in which they are first encountered.\<close>

fun first_seen :: "'a list \<Rightarrow> 'a list" where
  "first_seen [] = []"
| "first_seen (x # xs) = x # filter (\<lambda>y. y \<noteq> x) (first_seen xs)"

text \<open>The torrents of a list that carry a given key, in the order of the list.\<close>

definition bucket :: "string \<Rightarrow> Torrent list \<Rightarrow> Torrent list" where
  "bucket k ts = filter (\<lambda>t. key_of t = k) ts"

text \<open>The six fields that make up the grouping key.\<close>

definition key_fields :: "TorrentMetadata \<Rightarrow> string list" where
  "key_fields m =
     [release_group m, anime_name m, season m, audio_language m, subtitle_language m,
      TorrentMetadata.quality m]"

text \<open>
  The episode fields of the members parsed to integers, unparsable values ignored: one entry
  for every member whose field parses.
\<close>

definition parsed_episodes :: "Torrent list \<Rightarrow> int list" where
  "parsed_episodes ts =
     List.map_filter
       (\<lambda>t. Option.bind (metadata t) (\<lambda>m. py_int (str_replace ''Episode '' '''' (episode m)))) ts"

text \<open>
  The episode range as the specification words it, on the \<^emph>\<open>set\<close> of the parsed episodes:
  sorted ascending, \<open>Episode n\<close> for a singleton, \<open>Episodes min-max\<close> otherwise, \<open>Various\<close> for
  the empty set.
\<close>

definition spec_episode_range :: "int list \<Rightarrow> string" where
  "spec_episode_range es =
     (let s = sorted_list_of_set (set es) in
      if s = [] then ''Various''
      else if length s = 1 then ''Episode '' @ str_of_int (hd s)
      else ''Episodes '' @ str_of_int (hd s) @ ''-'' @ str_of_int (last s))"

definition spec_group_label :: "TorrentGroup \<Rightarrow> string" where
  "spec_group_label g = spec_episode_range (parsed_episodes (torrents g))"

text \<open>The groups a call returns (none if it raised).\<close>

definition returned_groups :: "py_error + (TorrentGroup list \<times> Torrent list) \<Rightarrow> TorrentGroup list" where
  "returned_groups r = (case r of Inl e \<Rightarrow> [] | Inr (gs, ts) \<Rightarrow> gs)"

text \<open>Sample records, after the fixtures of the test suite.\<close>

definition sample_metadata :: "string \<Rightarrow> string \<Rightarrow> TorrentMetadata" where
  "sample_metadata rg ep =
     \<lparr>anime_name = ''Test Anime'', season = ''Season 1'', episode = ep, quality = ''1080p'',
      audio_language = ''Japanese'', subtitle_language = ''English'', release_group = rg,
      description = ''Test description''\<rparr>"

definition sample_torrent :: "string \<Rightarrow> int \<Rightarrow> TorrentMetadata option \<Rightarrow> Torrent" where
  "sample_torrent i s m =
     \<lparr>torrent_id = i, name = ''Episode 01'', magnet = ''magnet:?xt=urn:btih:ABC123'',
      torrent_url = ''https://nyaa.si/download/12345.torrent'', size_label = ''1.4 GiB'',
      date = ''2024-01-15 12:00'', seeders = s, leechers = 10, downloads = 500,
      category = ''Anime - English-translated'', submitter = ''SubsPlease'', metadata = m\<rparr>"

definition seeders_example :: "Torrent list" where
  "seeders_example =
     [sample_torrent ''1'' 50 (Some (sample_metadata ''Group1'' ''Episode 1'')),
      sample_torrent ''2'' 100 (Some (sample_metadata ''Group2'' ''Episode 1'')),
      sample_torrent ''3'' 30 (Some (sample_metadata ''Group1'' ''Episode 1''))]"

definition episodes_example :: "Torrent list" where
  "episodes_example =
     [sample_torrent ''1'' 100 (Some (sample_metadata ''Group'' ''Episode 1'')),
      sample_torrent ''2'' 100 (Some (sample_metadata ''Group'' ''Episode 5'')),
      sample_torrent ''3'' 100 (Some (sample_metadata ''Group'' ''Episode 3''))]"

definition no_episode_example :: "Torrent list" where
  "no_episode_example =
     [sample_torrent ''1'' 100 (Some (sample_metadata ''Group'' '''')),
      sample_torrent ''2'' 100 (Some (sample_metadata ''Group'' ''Episode x''))]"

definition single_episode_example :: "Torrent list" where
  "single_episode_example = [sample_torrent ''1'' 100 (Some (sample_metadata ''Group'' ''Episode 1''))]"

definition same_episode_example :: "Torrent list" where
  "same_episode_example =
     [sample_torrent ''1'' 100 (Some (sample_metadata ''Group'' ''Episode 1'')),
      sample_torrent ''2'' 100 (Some (sample_metadata ''Group'' ''Episode 1''))]"

text \<open>A run of 4301 digits, one more than \<^verbatim>\<open>int\<close> converts, and a torrent with that episode.\<close>

definition long_digits :: string where
  "long_digits = replicate 4301 CHR ''1''"

definition long_episode_example :: "Torrent list" where
  "long_episode_example =
     [sample_torrent ''1'' 100 (Some (sample_metadata ''Group'' (''Episode '' @ long_digits)))]"

definition no_metadata_example :: "Torrent list" where
  "no_metadata_example =
     [sample_torrent ''1'' 50 None,
      sample_torrent ''2'' 100 (Some (sample_metadata ''Group'' ''Episode 2'')),
      sample_torrent ''3'' 30 None]"


section \<open>Notions used to reason about the patterns\<close>

text \<open>The character before the position reached after reading \<open>u\<close>.\<close>

fun lastc :: "char option \<Rightarrow> string \<Rightarrow> char option" where
  "lastc pv [] = pv"
| "lastc pv (c # cs) = lastc (Some c) cs"

text \<open>The longest run a repetition of the class \<open>p\<close> can take at the start of \<open>s\<close>.\<close>

definition run :: "(char \<Rightarrow> bool) \<Rightarrow> nat option \<Rightarrow> string \<Rightarrow> nat" where
  "run p hi s =
     (case hi of None \<Rightarrow> length (takeWhile p s) | Some h \<Rightarrow> min h (length (takeWhile p s)))"

text \<open>A title of one line.\<close>

definition nl_free :: "string \<Rightarrow> bool" where
  "nl_free s = (CHR 0x0A \<notin> set s)"

text \<open>Patterns without anchors: whether and how far they match depends on the text ahead only.\<close>

fun ctxfree :: "regex \<Rightarrow> bool" where
  "ctxfree (Cls p) = True"
| "ctxfree (Seq a b) = (ctxfree a \<and> ctxfree b)"
| "ctxfree (Alt a b) = (ctxfree a \<and> ctxfree b)"
| "ctxfree (Opt a) = ctxfree a"
| "ctxfree (Rep lo hi p) = True"
| "ctxfree (Grp n a) = ctxfree a"
| "ctxfree Bol = False"
| "ctxfree Eol = False"
| "ctxfree Wordb = False"

text \<open>The pattern matches at the start of \<open>s\<close>.\<close>

definition hits :: "regex \<Rightarrow> string \<Rightarrow> bool" where
  "hits r s = (rmatch r ([], None, s) \<noteq> [])"

text \<open>The text before the first position that satisfies \<open>h\<close>.\<close>

fun cut :: "(cursor \<Rightarrow> bool) \<Rightarrow> cursor \<Rightarrow> string" where
  "cut h (pv, []) = []"
| "cut h (pv, c # cs) = (if h (pv, c # cs) then [] else c # cut h (Some c, cs))"

text \<open>No position of \<open>a\<close>, its end included, satisfies \<open>H\<close>.\<close>

definition clean :: "(string \<Rightarrow> bool) \<Rightarrow> string \<Rightarrow> bool" where
  "clean H a = (\<forall>b. suffix b a \<longrightarrow> \<not> H b)"

text \<open>
  On a text of one line, the first way the pattern matches (if there is one) reaches the end
  of the text.
\<close>

definition to_end :: "regex \<Rightarrow> bool" where
  "to_end r =
     (\<forall>g pv s. nl_free s \<longrightarrow> (case rmatch r (g, pv, s) of [] \<Rightarrow> True | x # _ \<Rightarrow> snd (snd x) = []))"

text \<open>The match that \<^verbatim>\<open>re\<close> reports at a position: the first way the pattern matches.\<close>

definition first_match :: "regex \<Rightarrow> groups \<times> cursor \<Rightarrow> (groups \<times> cursor) option" where
  "first_match r x = (case rmatch r x of [] \<Rightarrow> None | y # _ \<Rightarrow> Some y)"

text \<open>Every character that the pattern reads satisfies \<open>q\<close>.\<close>

fun reads_only :: "(char \<Rightarrow> bool) \<Rightarrow> regex \<Rightarrow> bool" where
  "reads_only q (Cls p) = (\<forall>c. p c \<longrightarrow> q c)"
| "reads_only q (Seq a b) = (reads_only q a \<and> reads_only q b)"
| "reads_only q (Alt a b) = (reads_only q a \<and> reads_only q b)"
| "reads_only q (Opt a) = reads_only q a"
| "reads_only q (Rep lo hi p) = (\<forall>c. p c \<longrightarrow> q c)"
| "reads_only q (Grp n a) = reads_only q a"
| "reads_only q Bol = True"
| "reads_only q Eol = True"
| "reads_only q Wordb = True"

text \<open>
  The season resolver as the specification words it: six strategies, tried in this order, the
  first that matches decides. A strategy that does not match gives \<open>Inr None\<close>; one that
  matches gives its number, or the exception of the conversion of its match.
\<close>

definition by_digits :: "regex \<Rightarrow> string \<Rightarrow> py_error + int option" where
  "by_digits pattern t =
     (case re_search pattern t of
        None \<Rightarrow> Inr None
      | Some m \<Rightarrow> (case int_of_digits (group m 1) of Inl e \<Rightarrow> Inl e | Inr n \<Rightarrow> Inr (Some n)))"

definition by_word :: "regex \<Rightarrow> (string \<Rightarrow> int) \<Rightarrow> string \<Rightarrow> py_error + int option" where
  "by_word pattern parse t =
     (case re_search pattern t of
        None \<Rightarrow> Inr None
      | Some m \<Rightarrow> Inr (Some (parse (the_str (group m 1)))))"

definition season_strategies :: "(string \<Rightarrow> py_error + int option) list" where
  "season_strategies =
     [by_digits PATTERNS_season,
      by_digits PATTERNS_season_ordinal_num,
      by_word PATTERNS_season_ordinal_word parse_ordinal_word,
      by_word PATTERNS_season_roman parse_roman_numeral,
      by_digits PATTERNS_season_part,
      by_digits PATTERNS_season_cour]"

text \<open>The first outcome that is a number or an exception; \<open>Inr None\<close> if there is none.\<close>

fun first_resolved :: "(py_error + 'a option) list \<Rightarrow> py_error + 'a option" where
  "first_resolved [] = Inr None"
| "first_resolved (Inr None # xs) = first_resolved xs"
| "first_resolved (Inr (Some x) # xs) = Inr (Some x)"
| "first_resolved (Inl e # xs) = Inl e"

text \<open>A nonempty run of decimal digits.\<close>

definition digit_run :: "string \<Rightarrow> bool" where
  "digit_run d = (d \<noteq> [] \<and> list_all is_digit d)"

text \<open>
  Patterns in which every match sets group \<open>n\<close> to a nonempty run of digits: the group is a
  repetition, at least once, of a class of digits, no later part of the pattern sets the group
  again, and every alternative has it.
\<close>

fun grp_free :: "nat \<Rightarrow> regex \<Rightarrow> bool" where
  "grp_free n (Seq a b) = (grp_free n a \<and> grp_free n b)"
| "grp_free n (Alt a b) = (grp_free n a \<and> grp_free n b)"
| "grp_free n (Opt a) = grp_free n a"
| "grp_free n (Grp k a) = (k \<noteq> n \<and> grp_free n a)"
| "grp_free n r = True"

fun digit_rep :: "regex \<Rightarrow> bool" where
  "digit_rep (Rep lo hi p) = (1 \<le> lo \<and> (\<forall>c. p c \<longrightarrow> is_digit c))"
| "digit_rep r = False"

fun captures :: "nat \<Rightarrow> regex \<Rightarrow> bool" where
  "captures n (Grp k a) = (k = n \<and> digit_rep a)"
| "captures n (Seq a b) = (captures n b \<or> (captures n a \<and> grp_free n b))"
| "captures n (Alt a b) = (captures n a \<and> captures n b)"
| "captures n r = False"

text \<open>Patterns that read at least one character in every match.\<close>

fun consumes :: "regex \<Rightarrow> bool" where
  "consumes (Cls p) = True"
| "consumes (Seq a b) = (consumes a \<or> consumes b)"
| "consumes (Alt a b) = (consumes a \<and> consumes b)"
| "consumes (Rep lo hi p) = (1 \<le> lo)"
| "consumes (Grp n a) = consumes a"
| "consumes r = False"

text \<open>A detail record with empty texts and the anonymous submitter.\<close>

definition empty_detail :: "string \<rightharpoonup> string" where
  "empty_detail =
     [''title'' \<mapsto> '''', ''description'' \<mapsto> '''', ''category'' \<mapsto> '''',
      ''submitter'' \<mapsto> ''Anonymous'']"

definition sample_detail :: "string \<Rightarrow> string \<Rightarrow> (string \<rightharpoonup> string)" where
  "sample_detail title_text submitter_name =
     [''title'' \<mapsto> title_text, ''description'' \<mapsto> '''', ''category'' \<mapsto> '''',
      ''submitter'' \<mapsto> submitter_name]"


section \<open>Evaluation of the character tables\<close>

text \<open>
  The character classes and the case mappings are defined by ranges of code points. For the
  evaluation on concrete strings they are decided on the eight bits of a character; each
  equation is proved from the definition, for all 256 characters.
\<close>

lemma is_space_code [code]:
  "is_space (Char b0 b1 b2 b3 b4 b5 b6 b7) =
     (if b7 then (if b6 then False else (if b5 then (if b4 then False else (if b3 then
       False else (if b2 then False else (if b1 then False else \<not> b0)))) else (if b4
       then False else (if b3 then False else (if b2 then (if b1 then False else b0) else
       False))))) else (if b6 then False else (if b5 then (if b4 then False else (if b3
       then False else (if b2 then False else (if b1 then False else \<not> b0)))) else (if
       b4 then (if b3 then b2 else False) else (if b3 then (if b2 then \<not> b1 else (if
       b1 then True else b0)) else False)))))"
  by (cases b0; cases b1; cases b2; cases b3; cases b4; cases b5; cases b6; cases b7;
      simp add: is_space_def ord_def)

lemma is_digit_code [code]:
  "is_digit (Char b0 b1 b2 b3 b4 b5 b6 b7) =
     (if b7 then False else (if b6 then False else (if b5 then (if b4 then (if b3 then (if
       b2 then False else \<not> b1) else True) else False) else False)))"
  by (cases b0; cases b1; cases b2; cases b3; cases b4; cases b5; cases b6; cases b7;
      simp add: is_digit_def ord_def)

lemma is_word_code [code]:
  "is_word (Char b0 b1 b2 b3 b4 b5 b6 b7) =
     (if b7 then (if b6 then (if b5 then (if b4 then (if b3 then True else (if b2 then (if
       b1 then \<not> b0 else True) else True)) else True) else (if b4 then (if b3 then
       True else (if b2 then (if b1 then \<not> b0 else True) else True)) else True)) else
       (if b5 then (if b4 then (if b3 then (if b2 then (if b1 then \<not> b0 else True)
       else (if b1 then \<not> b0 else b0)) else (if b2 then (if b1 then False else b0)
       else b1)) else (if b3 then (if b2 then False else (if b1 then \<not> b0 else False))
       else False)) else False)) else (if b6 then (if b5 then (if b4 then (if b3 then (if
       b2 then False else (if b1 then \<not> b0 else True)) else True) else (if b3 then
       True else (if b2 then True else (if b1 then True else b0)))) else (if b4 then (if b3
       then (if b2 then (if b1 then b0 else False) else (if b1 then \<not> b0 else True))
       else True) else (if b3 then True else (if b2 then True else (if b1 then True else
       b0))))) else (if b5 then (if b4 then (if b3 then (if b2 then False else \<not> b1)
       else True) else False) else False)))"
  by (cases b0; cases b1; cases b2; cases b3; cases b4; cases b5; cases b6; cases b7;
      simp add: is_word_def ord_def)

lemma ascii_alnum_code [code]:
  "ascii_alnum (Char b0 b1 b2 b3 b4 b5 b6 b7) =
     (if b7 then False else (if b6 then (if b5 then (if b4 then (if b3 then (if b2 then
       False else (if b1 then \<not> b0 else True)) else True) else (if b3 then True else
       (if b2 then True else (if b1 then True else b0)))) else (if b4 then (if b3 then (if
       b2 then False else (if b1 then \<not> b0 else True)) else True) else (if b3 then
       True else (if b2 then True else (if b1 then True else b0))))) else (if b5 then (if
       b4 then (if b3 then (if b2 then False else \<not> b1) else True) else False) else
       False)))"
  by (cases b0; cases b1; cases b2; cases b3; cases b4; cases b5; cases b6; cases b7;
      simp add: ascii_alnum_def ord_def)

lemma ascii_lower_code [code]:
  "ascii_lower (Char b0 b1 b2 b3 b4 b5 b6 b7) =
     (if b7 then False else (if b6 then (if b5 then (if b4 then (if b3 then (if b2 then
       False else (if b1 then \<not> b0 else True)) else True) else (if b3 then True else
       (if b2 then True else (if b1 then True else b0)))) else False) else False))"
  by (cases b0; cases b1; cases b2; cases b3; cases b4; cases b5; cases b6; cases b7;
      simp add: ascii_lower_def ord_def)

lemma lower_code [code]:
  "lower (Char b0 b1 b2 b3 b4 b5 b6 b7) =
     (if (if b7 then (if b6 then (if b5 then False else (if b4 then (if b3 then (if b2 then
       (if b1 then \<not> b0 else True) else True) else (if b2 then (if b1 then \<not> b0
       else True) else True)) else True)) else False) else (if b6 then (if b5 then False
       else (if b4 then (if b3 then (if b2 then False else (if b1 then \<not> b0 else
       True)) else True) else (if b3 then True else (if b2 then True else (if b1 then True
       else b0))))) else False)) then Char b0 b1 b2 b3 b4 True b6 b7 else Char b0 b1 b2 b3
       b4 b5 b6 b7)"
  by (cases b0; cases b1; cases b2; cases b3; cases b4; cases b5; cases b6; cases b7;
      simp add: lower_def ord_def char_of_eq_iff)

lemma upper_code [code]:
  "upper (Char b0 b1 b2 b3 b4 b5 b6 b7) =
     (if (if b7 then (if b6 then (if b5 then (if b4 then (if b3 then (if b2 then (if b1
       then \<not> b0 else True) else True) else (if b2 then (if b1 then \<not> b0 else
       True) else True)) else True) else False) else False) else (if b6 then (if b5 then
       (if b4 then (if b3 then (if b2 then False else (if b1 then \<not> b0 else True))
       else True) else (if b3 then True else (if b2 then True else (if b1 then True else
       b0)))) else False) else False)) then Char b0 b1 b2 b3 b4 False b6 b7 else Char b0 b1
       b2 b3 b4 b5 b6 b7)"
  by (cases b0; cases b1; cases b2; cases b3; cases b4; cases b5; cases b6; cases b7;
      simp add: upper_def ord_def char_of_eq_iff)


section \<open>The grouping: buckets in closed form\<close>

lemma set_first_seen [simp]: "set (first_seen xs) = set xs"
  by (induction xs) auto

lemma distinct_first_seen [simp]: "distinct (first_seen xs)"
  by (induction xs) auto

lemma first_seen_snoc:
  "first_seen (xs @ [x]) = (if x \<in> set xs then first_seen xs else first_seen xs @ [x])"
  by (induction xs) auto

lemma ensure_metadata_some [simp]: "\<exists>m. metadata (ensure_metadata n t) = Some m"
  by (simp add: ensure_metadata_def split: option.splits)

lemma ensure_metadata_not_None [simp]: "metadata (ensure_metadata n t) \<noteq> None"
  by (simp add: ensure_metadata_def split: option.splits)

lemma ensure_metadata_id: "metadata t \<noteq> None \<Longrightarrow> ensure_metadata n t = t"
  by (auto simp: ensure_metadata_def split: option.splits)

lemma map_ensure_metadata_id:
  "\<forall>t\<in>set ts. metadata t \<noteq> None \<Longrightarrow> map (ensure_metadata n) ts = ts"
  by (induction ts) (auto simp: ensure_metadata_id)

lemma fill_groups_dict_foldl:
  "\<forall>t\<in>set ts. metadata t \<noteq> None \<Longrightarrow>
   fill_groups_dict d ts = Inr (foldl (\<lambda>d t. dict_append d (key_of t) t) d ts)"
  by (induction ts arbitrary: d) (auto simp: key_of_def split: option.splits)

lemma dict_append_known:
  "k \<in> set ks \<Longrightarrow> distinct ks \<Longrightarrow>
   dict_append (map (\<lambda>k. (k, f k)) ks) k t
     = map (\<lambda>k'. (k', if k' = k then f k' @ [t] else f k')) ks"
  by (induction ks) auto

lemma dict_append_new:
  "k \<notin> set ks \<Longrightarrow>
   dict_append (map (\<lambda>k. (k, f k)) ks) k t = map (\<lambda>k. (k, f k)) ks @ [(k, [t])]"
  by (induction ks) auto

lemma groups_dict_closed:
  "foldl (\<lambda>d t. dict_append d (key_of t) t) [] ts
     = map (\<lambda>k. (k, bucket k ts)) (first_seen (map key_of ts))"
proof (induction ts rule: rev_induct)
  case Nil
  show ?case by simp
next
  case (snoc t ts)
  show ?case
  proof (cases "key_of t \<in> set (map key_of ts)")
    case True
    then have "key_of t \<in> set (first_seen (map key_of ts))" by simp
    then show ?thesis
      using snoc True
      by (simp add: first_seen_snoc dict_append_known bucket_def)
  next
    case False
    then have nk: "key_of t \<notin> set (first_seen (map key_of ts))" by simp
    have "bucket (key_of t) ts = []"
      using False by (auto simp: bucket_def filter_empty_conv intro: rev_image_eqI)
    then show ?thesis
      using snoc False nk
      by (auto simp add: first_seen_snoc dict_append_new bucket_def)
  qed
qed

lemma make_group_Inr:
  "b \<noteq> [] \<Longrightarrow> metadata (hd b) \<noteq> None \<Longrightarrow> \<exists>g. make_group b = Inr g"
  by (cases b) (auto simp: make_group_def split: option.splits)

lemma make_group_fields:
  "make_group b = Inr g \<Longrightarrow> torrents g = b \<and> episode_range g = episode_range_of b"
  by (auto simp: make_group_def split: list.splits option.splits)

lemma make_groups_ok:
  "\<forall>kb\<in>set d. snd kb \<noteq> [] \<and> metadata (hd (snd kb)) \<noteq> None \<Longrightarrow>
   \<exists>gs. make_groups d = Inr gs \<and> list_all2 (\<lambda>kb g. make_group (snd kb) = Inr g) d gs"
proof (induction d)
  case Nil
  show ?case by simp
next
  case (Cons kb d)
  obtain k b where kb: "kb = (k, b)" by (cases kb)
  from Cons.prems kb have "b \<noteq> []" "metadata (hd b) \<noteq> None" by auto
  then obtain g where g: "make_group b = Inr g" using make_group_Inr by blast
  from Cons obtain gs where gs: "make_groups d = Inr gs"
    "list_all2 (\<lambda>kb g. make_group (snd kb) = Inr g) d gs" by auto
  show ?case using kb g gs by simp
qed

lemma bucket_nonempty:
  "k \<in> set (map key_of ts) \<Longrightarrow> bucket k ts \<noteq> []"
  by (auto simp: bucket_def filter_empty_conv)

lemma hd_bucket_in: "bucket k ts \<noteq> [] \<Longrightarrow> hd (bucket k ts) \<in> set ts"
  by (metis bucket_def filter_is_subset hd_in_set subsetD)

lemma key_of_hd_bucket:
  assumes "k \<in> set (map key_of ts)"
  shows "key_of (hd (bucket k ts)) = k"
proof -
  from assms have "bucket k ts \<noteq> []" by (rule bucket_nonempty)
  then have "hd (bucket k ts) \<in> set (bucket k ts)" by simp
  then show ?thesis by (simp add: bucket_def)
qed

lemma gtd_Nil: "group_torrents_deterministic [] n = Inr ([], [])"
  by (simp add: group_torrents_deterministic_def)

lemma gtd_nonempty:
  assumes "ts \<noteq> []"
  shows "\<exists>gs0. group_torrents_deterministic ts n
            = Inr (sort_by_seeders_desc gs0, map (ensure_metadata n) ts)
          \<and> list_all2 (\<lambda>k g. make_group (bucket k (map (ensure_metadata n) ts)) = Inr g)
               (first_seen (map key_of (map (ensure_metadata n) ts))) gs0"
proof -
  let ?ts = "map (ensure_metadata n) ts"
  let ?K = "first_seen (map key_of ?ts)"
  let ?d = "map (\<lambda>k. (k, bucket k ?ts)) ?K"
  have md: "\<forall>t\<in>set ?ts. metadata t \<noteq> None" by auto
  then have fill: "fill_groups_dict [] ?ts = Inr ?d"
    by (simp only: fill_groups_dict_foldl groups_dict_closed)
  have "\<forall>kb\<in>set ?d. snd kb \<noteq> [] \<and> metadata (hd (snd kb)) \<noteq> None"
  proof
    fix kb assume "kb \<in> set ?d"
    then obtain k where k: "k \<in> set (map key_of ?ts)" "kb = (k, bucket k ?ts)" by auto
    then have ne: "bucket k ?ts \<noteq> []" using bucket_nonempty by blast
    then have "hd (bucket k ?ts) \<in> set ?ts" by (rule hd_bucket_in)
    with md have "metadata (hd (bucket k ?ts)) \<noteq> None" by blast
    with ne k show "snd kb \<noteq> [] \<and> metadata (hd (snd kb)) \<noteq> None" by simp
  qed
  then obtain gs0 where gs0: "make_groups ?d = Inr gs0"
      "list_all2 (\<lambda>kb g. make_group (snd kb) = Inr g) ?d gs0"
    using make_groups_ok by blast
  from gs0(2) have "list_all2 (\<lambda>k g. make_group (bucket k ?ts) = Inr g) ?K gs0"
    by (simp add: list_all2_map1)
  moreover have "group_torrents_deterministic ts n = Inr (sort_by_seeders_desc gs0, ?ts)"
    using assms fill gs0(1) by (simp add: group_torrents_deterministic_def Let_def)
  ultimately show ?thesis by blast
qed

lemma gtd_closed:
  "\<exists>gs0. group_torrents_deterministic ts n
            = Inr (sort_by_seeders_desc gs0, map (ensure_metadata n) ts)
          \<and> list_all2 (\<lambda>k g. make_group (bucket k (map (ensure_metadata n) ts)) = Inr g)
               (first_seen (map key_of (map (ensure_metadata n) ts))) gs0"
proof (cases "ts = []")
  case True
  then show ?thesis by (simp add: gtd_Nil sort_by_seeders_desc_def)
next
  case False
  then show ?thesis by (rule gtd_nonempty)
qed

lemma gtd_groups:
  assumes "group_torrents_deterministic ts n = Inr (gs, ts')" and "g \<in> set gs"
  shows "\<exists>k\<in>set (map key_of ts'). make_group (bucket k ts') = Inr g"
proof -
  from gtd_closed [of ts n] assms(1) obtain gs0 where
    gs: "gs = sort_by_seeders_desc gs0" and ts': "ts' = map (ensure_metadata n) ts" and
    la: "list_all2 (\<lambda>k g. make_group (bucket k ts') = Inr g) (first_seen (map key_of ts')) gs0"
    by auto
  from assms(2) gs have "g \<in> set gs0" by (simp add: sort_by_seeders_desc_def)
  then obtain i where i: "i < length gs0" "g = gs0 ! i" by (auto simp: in_set_conv_nth)
  let ?K = "first_seen (map key_of ts')"
  have "make_group (bucket (?K ! i) ts') = Inr g"
    using list_all2_nthD2 [OF la i(1)] i(2) by simp
  moreover have "?K ! i \<in> set (map key_of ts')"
  proof -
    have "i < length ?K" using la i(1) by (simp add: list_all2_lengthD)
    then have "?K ! i \<in> set ?K" by (rule nth_mem)
    then show ?thesis by simp
  qed
  ultimately show ?thesis by blast
qed

lemma gtd_ensure_again:
  assumes "ts \<noteq> []"
  shows "group_torrents_deterministic (map (ensure_metadata n) ts) n
           = group_torrents_deterministic ts n"
proof -
  have "map (ensure_metadata n) (map (ensure_metadata n) ts) = map (ensure_metadata n) ts"
    by (rule map_ensure_metadata_id) auto
  with assms show ?thesis
    by (simp add: group_torrents_deterministic_def del: map_map)
qed

lemma bucket_filter_other:
  "k' \<noteq> k \<Longrightarrow> bucket k' (filter (\<lambda>t. key_of t \<noteq> k) ts) = bucket k' ts"
  by (induction ts) (auto simp: bucket_def)

lemma mset_concat_buckets:
  "distinct ks \<Longrightarrow> set (map key_of ts) \<subseteq> set ks \<Longrightarrow>
   mset (concat (map (\<lambda>k. bucket k ts) ks)) = mset ts"
proof (induction ks arbitrary: ts)
  case Nil
  then show ?case by simp
next
  case (Cons k ks)
  let ?ts2 = "filter (\<lambda>t. key_of t \<noteq> k) ts"
  have e1: "map (\<lambda>k'. bucket k' ts) ks = map (\<lambda>k'. bucket k' ?ts2) ks"
    using Cons.prems(1) by (intro map_cong refl bucket_filter_other [symmetric]) auto
  have e2: "mset (concat (map (\<lambda>k'. bucket k' ?ts2) ks)) = mset ?ts2"
    using Cons.prems by (intro Cons.IH) auto
  have e3: "mset (bucket k ts) + mset ?ts2 = mset ts"
    by (simp add: bucket_def)
  have "mset (concat (map (\<lambda>k. bucket k ts) (k # ks)))
          = mset (bucket k ts) + mset (concat (map (\<lambda>k'. bucket k' ts) ks))"
    by simp
  also have "\<dots> = mset (bucket k ts) + mset ?ts2"
    by (simp only: e1 e2)
  finally show ?case by (simp only: e3)
qed

lemma list_all2_torrents:
  "list_all2 (\<lambda>k g. make_group (bucket k ts) = Inr g) ks gs \<Longrightarrow>
   map torrents gs = map (\<lambda>k. bucket k ts) ks"
  by (induction rule: list_all2_induct) (auto dest: make_group_fields)

lemma mset_sort_by_seeders [simp]: "mset (sort_by_seeders_desc gs) = mset gs"
  by (simp add: sort_by_seeders_desc_def)

lemma set_sort_by_seeders [simp]: "set (sort_by_seeders_desc gs) = set gs"
  by (simp add: sort_by_seeders_desc_def)

lemma mset_concat_map_cong:
  assumes "mset xs = mset ys"
  shows "mset (concat (map f xs)) = mset (concat (map f ys))"
proof -
  from assms have "sum_mset (image_mset (mset \<circ> f) (mset xs))
                     = sum_mset (image_mset (mset \<circ> f) (mset ys))"
    by simp
  then show ?thesis
    by (simp add: mset_concat sum_mset_sum_list flip: mset_map)
qed

lemma filter_corresponding:
  "list_all2 R ks gs \<Longrightarrow>
   (\<And>k g. k \<in> set ks \<Longrightarrow> R k g \<Longrightarrow> h g = k \<and> (P g \<longleftrightarrow> Q k)) \<Longrightarrow>
   map h (filter P gs) = filter Q ks"
  by (induction rule: list_all2_induct) auto

lemma sorted_desc:
  "sorted_wrt (\<lambda>a b. total_seeders b \<le> total_seeders a) (sort_by_seeders_desc gs)"
proof -
  have "sorted (map (\<lambda>g. - total_seeders g) (sort_by_seeders_desc gs))"
    unfolding sort_by_seeders_desc_def by (rule sorted_sort_key)
  then show ?thesis by (simp add: sorted_wrt_map)
qed

lemma stable_desc:
  "filter (\<lambda>g. total_seeders g = c) (sort_by_seeders_desc gs)
     = filter (\<lambda>g. total_seeders g = c) gs"
  using sort_key_stable [of "\<lambda>g. - total_seeders g" "- c" gs]
  by (simp add: sort_by_seeders_desc_def)

lemma collect_episodes_parsed: "collect_episodes ts = parsed_episodes ts"
proof (induction ts)
  case Nil
  show ?case by (simp add: parsed_episodes_def map_filter_simps)
next
  case (Cons t ts)
  have e: "py_int (str_replace ''Episode '' '''' []) = None"
    by (simp add: str_replace.simps py_int_def)
  show ?case using Cons e
    by (auto simp: parsed_episodes_def map_filter_simps split: option.splits)
qed

lemma py_min_Min:
  assumes "xs \<noteq> []"
  shows "py_min xs = Min (set xs)"
proof (cases xs)
  case Nil
  with assms show ?thesis by simp
next
  case (Cons a list)
  then show ?thesis using Min.set_eq_fold [of a list] by (simp add: py_min_def)
qed

lemma py_max_Max:
  assumes "xs \<noteq> []"
  shows "py_max xs = Max (set xs)"
proof (cases xs)
  case Nil
  with assms show ?thesis by simp
next
  case (Cons a list)
  then show ?thesis using Max.set_eq_fold [of a list] by (simp add: py_max_def)
qed

lemma hd_sort_single: "length xs = 1 \<Longrightarrow> hd (sort xs) = hd (xs :: int list)"
  by (cases xs) auto

lemma episode_range_of_char:
  "episode_range_of b =
     (let es = parsed_episodes b in
      if es = [] then ''Various''
      else if length es = 1 then ''Episode '' @ str_of_int (hd es)
      else ''Episodes '' @ str_of_int (Min (set es)) @ ''-'' @ str_of_int (Max (set es)))"
proof -
  have "sort (parsed_episodes b) \<noteq> []" if "parsed_episodes b \<noteq> []"
    using that by (metis length_sort length_0_conv)
  then show ?thesis
    by (simp add: episode_range_of_def collect_episodes_parsed Let_def py_min_Min py_max_Max
        hd_sort_single)
qed

lemma key_fields_differ:
  assumes "length (filter (\<lambda>(a, b). a \<noteq> b) (zip (key_fields m1) (key_fields m2))) = 1"
  shows "group_key m1 \<noteq> group_key m2"
  using assms by (auto simp: key_fields_def group_key_def split: if_splits)

lemma two_groups:
  assumes "group_key m1 \<noteq> group_key m2"
  shows "\<exists>gs. group_torrents_deterministic [t1\<lparr>metadata := Some m1\<rparr>, t2\<lparr>metadata := Some m2\<rparr>] n
               = Inr (gs, [t1\<lparr>metadata := Some m1\<rparr>, t2\<lparr>metadata := Some m2\<rparr>])
            \<and> length gs = 2
            \<and> set (map torrents gs) = {[t1\<lparr>metadata := Some m1\<rparr>], [t2\<lparr>metadata := Some m2\<rparr>]}"
proof -
  let ?a = "t1\<lparr>metadata := Some m1\<rparr>" and ?b = "t2\<lparr>metadata := Some m2\<rparr>"
  have ens: "map (ensure_metadata n) [?a, ?b] = [?a, ?b]"
    by (rule map_ensure_metadata_id) simp
  have K: "first_seen (map key_of [?a, ?b]) = [group_key m1, group_key m2]"
    using assms by (auto simp: key_of_def)
  from gtd_closed [of "[?a, ?b]" n] obtain gs0 where
    r: "group_torrents_deterministic [?a, ?b] n = Inr (sort_by_seeders_desc gs0, [?a, ?b])" and
    la: "list_all2 (\<lambda>k g. make_group (bucket k [?a, ?b]) = Inr g) [group_key m1, group_key m2] gs0"
    unfolding ens K by blast
  from la have len: "length gs0 = 2" by (auto dest: list_all2_lengthD)
  have "map torrents gs0 = map (\<lambda>k. bucket k [?a, ?b]) [group_key m1, group_key m2]"
    using la by (rule list_all2_torrents)
  also have "\<dots> = [[?a], [?b]]"
    using assms by (auto simp: bucket_def key_of_def)
  finally have "set (map torrents gs0) = {[?a], [?b]}" by simp
  then have "set (map torrents (sort_by_seeders_desc gs0)) = {[?a], [?b]}" by simp
  moreover have "length (sort_by_seeders_desc gs0) = 2"
    using len by (simp add: sort_by_seeders_desc_def)
  ultimately show ?thesis using r by blast
qed

lemma one_group:
  assumes "group_key m1 = group_key m2"
  shows "\<exists>g. group_torrents_deterministic [t1\<lparr>metadata := Some m1\<rparr>, t2\<lparr>metadata := Some m2\<rparr>] n
               = Inr ([g], [t1\<lparr>metadata := Some m1\<rparr>, t2\<lparr>metadata := Some m2\<rparr>])
            \<and> torrents g = [t1\<lparr>metadata := Some m1\<rparr>, t2\<lparr>metadata := Some m2\<rparr>]"
proof -
  let ?a = "t1\<lparr>metadata := Some m1\<rparr>" and ?b = "t2\<lparr>metadata := Some m2\<rparr>"
  have ens: "map (ensure_metadata n) [?a, ?b] = [?a, ?b]"
    by (rule map_ensure_metadata_id) simp
  have K: "first_seen (map key_of [?a, ?b]) = [group_key m1]"
    using assms by (auto simp: key_of_def)
  from gtd_closed [of "[?a, ?b]" n] obtain gs0 where
    r: "group_torrents_deterministic [?a, ?b] n = Inr (sort_by_seeders_desc gs0, [?a, ?b])" and
    la: "list_all2 (\<lambda>k g. make_group (bucket k [?a, ?b]) = Inr g) [group_key m1] gs0"
    unfolding ens K by blast
  from la obtain g where g: "gs0 = [g]" "make_group (bucket (group_key m1) [?a, ?b]) = Inr g"
    by (auto simp: list_all2_Cons1)
  have "bucket (group_key m1) [?a, ?b] = [?a, ?b]"
    using assms by (simp add: bucket_def key_of_def)
  with g(2) have "torrents g = [?a, ?b]" by (auto dest: make_group_fields)
  then show ?thesis using r g(1) by (simp add: sort_by_seeders_desc_def)
qed


section \<open>The matcher: general facts\<close>

lemma lastc_append [simp]: "lastc pv (u @ v) = lastc (lastc pv u) v"
  by (induction u arbitrary: pv) auto

lemma lastc_snoc: "lastc pv (u @ [c]) = Some c"
  by simp

lemma run_Nil [simp]: "run p hi [] = 0"
  by (simp add: run_def split: option.splits)

lemma run_le_length: "run p hi s \<le> length s"
  by (auto simp: run_def length_takeWhile_le min.coboundedI2 split: option.splits)

lemma run_Cons:
  "run p hi (c # cs) =
     (if p c \<and> hi \<noteq> Some 0 then Suc (run p (map_option (\<lambda>n. n - 1) hi) cs) else 0)"
  by (cases hi) (auto simp: run_def)

lemma rev_upt_Suc_0: "rev [0..<Suc (Suc m)] = map Suc (rev [0..<Suc m]) @ [0]"
proof -
  have "[0..<Suc (Suc m)] = 0 # [Suc 0..<Suc (Suc m)]"
    by (rule upt_conv_Cons) simp
  also have "[Suc 0..<Suc (Suc m)] = map Suc [0..<Suc m]"
    by (simp only: map_Suc_upt)
  finally show ?thesis by (simp only: rev.simps rev_map)
qed

lemma rep_ends_closed:
  "rep_ends p hi (pv, s)
     = map (\<lambda>k. (lastc pv (take k s), drop k s)) (rev [0..<Suc (run p hi s)])"
proof (induction s arbitrary: pv hi)
  case Nil
  show ?case by simp
next
  case (Cons c cs)
  show ?case
  proof (cases "p c \<and> hi \<noteq> Some 0")
    case True
    let ?hi = "map_option (\<lambda>n. n - 1) hi"
    have r: "run p hi (c # cs) = Suc (run p ?hi cs)"
      using True by (simp add: run_Cons)
    show ?thesis
      using True
      by (simp only: rep_ends.simps r rev_upt_Suc_0 Cons.IH [of ?hi "Some c"])
         (simp add: comp_def)
  next
    case False
    then have "run p hi (c # cs) = 0" by (simp add: run_Cons)
    with False show ?thesis by auto
  qed
qed

lemma rmatch_Rep:
  "rmatch (Rep lo hi p) (g, pv, s)
     = map (\<lambda>k. (g, lastc pv (take k s), drop k s)) (rev [lo..<Suc (run p hi s)])"
proof -
  have "take (Suc m - lo) (rev [0..<Suc m]) = rev [lo..<Suc m]" for m
    by (cases "lo \<le> Suc m") (simp_all add: take_rev drop_upt del: upt_Suc)
  then show ?thesis
    by (simp add: rep_ends_closed take_map comp_def del: upt_Suc)
qed

declare rmatch.simps(5) [simp del]

lemma run_takeWhile: "k \<le> run p hi s \<Longrightarrow> \<forall>c\<in>set (take k s). p c"
proof -
  assume "k \<le> run p hi s"
  then have "k \<le> length (takeWhile p s)"
    by (auto simp: run_def split: option.splits)
  then have "take k s = take k (takeWhile p s)"
    by (metis append_eq_conv_conj append_take_drop_id takeWhile_dropWhile_id take_append
        diff_is_0_eq' take_0 append_Nil2 length_take min.absorb2)
  then show ?thesis
    by (metis in_set_takeD set_takeWhileD)
qed

lemma rmatch_suffix:
  "(g', pv', s') \<in> set (rmatch r (g, pv, s)) \<Longrightarrow> \<exists>u. s = u @ s' \<and> pv' = lastc pv u"
proof (induction r arbitrary: g pv s g' pv' s')
  case (Cls p)
  then show ?case by (cases s) (auto split: if_splits)
next
  case (Seq a b)
  from Seq.prems obtain g1 pv1 s1 where
    a: "(g1, pv1, s1) \<in> set (rmatch a (g, pv, s))" and
    b: "(g', pv', s') \<in> set (rmatch b (g1, pv1, s1))"
    by auto
  from Seq.IH(1) [OF a] obtain u where u: "s = u @ s1" "pv1 = lastc pv u" by blast
  from Seq.IH(2) [OF b] obtain v where v: "s1 = v @ s'" "pv' = lastc pv1 v" by blast
  from u v have "s = (u @ v) @ s' \<and> pv' = lastc pv (u @ v)" by simp
  then show ?case by blast
next
  case (Alt a b)
  then show ?case by auto
next
  case (Opt a)
  from Opt.prems have "(g', pv', s') \<in> set (rmatch a (g, pv, s)) \<or> (g', pv', s') = (g, pv, s)"
    by auto
  then show ?case
  proof
    assume "(g', pv', s') \<in> set (rmatch a (g, pv, s))"
    then show ?thesis by (rule Opt.IH)
  next
    assume "(g', pv', s') = (g, pv, s)"
    then have "s = [] @ s' \<and> pv' = lastc pv []" by simp
    then show ?thesis by blast
  qed
next
  case (Rep lo hi p)
  then obtain k where "s' = drop k s" "pv' = lastc pv (take k s)"
    by (auto simp: rmatch_Rep simp del: upt_Suc)
  then have "s = take k s @ s' \<and> pv' = lastc pv (take k s)" by simp
  then show ?case by blast
next
  case (Grp n a)
  from Grp.prems obtain g1 where "(g1, pv', s') \<in> set (rmatch a (g, pv, s))"
    by auto
  then show ?case by (rule Grp.IH)
next
  case Bol
  then have "s = [] @ s' \<and> pv' = lastc pv []" by (auto split: if_splits)
  then show ?case by blast
next
  case Eol
  then have "s = [] @ s' \<and> pv' = lastc pv []" by (auto split: if_splits)
  then show ?case by blast
next
  case Wordb
  then have "s = [] @ s' \<and> pv' = lastc pv []" by (auto split: if_splits)
  then show ?case by blast
qed

lemma rmatch_Seq_Nil_iff:
  "rmatch (Seq a b) x = [] \<longleftrightarrow> (\<forall>y\<in>set (rmatch a x). rmatch b y = [])"
  by simp

lemma rmatch_extend:
  "ctxfree r \<Longrightarrow> (g1, pv1, s1) \<in> set (rmatch r (g, pv, s)) \<Longrightarrow>
   \<exists>g2 pv2. (g2, pv2, s1 @ t) \<in> set (rmatch r (g', pv', s @ t))"
proof (induction r arbitrary: g pv s g' pv' g1 pv1 s1)
  case (Cls p)
  then show ?case by (cases s) (auto split: if_splits)
next
  case (Seq a b)
  from Seq.prems obtain ga pva sa where
    a: "(ga, pva, sa) \<in> set (rmatch a (g, pv, s))" and
    b: "(g1, pv1, s1) \<in> set (rmatch b (ga, pva, sa))"
    by auto
  from Seq.prems(1) have ca: "ctxfree a" and cb: "ctxfree b" by simp_all
  from Seq.IH(1) [OF ca a, of g' pv'] obtain ga' pva' where
    a': "(ga', pva', sa @ t) \<in> set (rmatch a (g', pv', s @ t))" by blast
  from Seq.IH(2) [OF cb b, of ga' pva'] obtain g2 pv2 where
    b': "(g2, pv2, s1 @ t) \<in> set (rmatch b (ga', pva', sa @ t))" by blast
  from a' b' have "(g2, pv2, s1 @ t) \<in> set (rmatch (Seq a b) (g', pv', s @ t))"
    by auto
  then show ?case by blast
next
  case (Alt a b)
  from Alt.prems(2) have
    "(g1, pv1, s1) \<in> set (rmatch a (g, pv, s)) \<or> (g1, pv1, s1) \<in> set (rmatch b (g, pv, s))"
    by auto
  then show ?case
  proof
    assume "(g1, pv1, s1) \<in> set (rmatch a (g, pv, s))"
    from Alt.IH(1) [OF _ this, of g' pv'] Alt.prems(1) show ?thesis by auto
  next
    assume "(g1, pv1, s1) \<in> set (rmatch b (g, pv, s))"
    from Alt.IH(2) [OF _ this, of g' pv'] Alt.prems(1) show ?thesis by auto
  qed
next
  case (Opt a)
  from Opt.prems(2) have
    "(g1, pv1, s1) \<in> set (rmatch a (g, pv, s)) \<or> (g1, pv1, s1) = (g, pv, s)"
    by auto
  then show ?case
  proof
    assume "(g1, pv1, s1) \<in> set (rmatch a (g, pv, s))"
    from Opt.IH [OF _ this, of g' pv'] Opt.prems(1) show ?thesis by auto
  next
    assume "(g1, pv1, s1) = (g, pv, s)"
    then show ?thesis by auto
  qed
next
  case (Rep lo hi p)
  from Rep.prems(2) obtain k where
    k: "lo \<le> k" "k \<le> run p hi s" "s1 = drop k s"
    by (auto simp: rmatch_Rep simp del: upt_Suc)
  have kl: "k \<le> length s" using k(2) run_le_length [of p hi s] by simp
  have "k \<le> run p hi (s @ t)"
  proof -
    have "length (takeWhile p s) \<le> length (takeWhile p (s @ t))"
      by (induction s) auto
    with k(2) show ?thesis by (auto simp: run_def split: option.splits)
  qed
  moreover have "drop k (s @ t) = s1 @ t" using k(3) kl by simp
  ultimately have "(g', lastc pv' (take k (s @ t)), s1 @ t) \<in> set (rmatch (Rep lo hi p) (g', pv', s @ t))"
    using k(1) by (auto simp: rmatch_Rep image_iff simp del: upt_Suc intro!: bexI [of _ k])
  then show ?case by blast
next
  case (Grp n a)
  from Grp.prems(2) obtain ga where "(ga, pv1, s1) \<in> set (rmatch a (g, pv, s))"
    by auto
  from Grp.IH [OF _ this, of g' pv'] Grp.prems(1) obtain g2 pv2 where
    "(g2, pv2, s1 @ t) \<in> set (rmatch a (g', pv', s @ t))" by auto
  then have "((n, take (length (s @ t) - length (s1 @ t)) (s @ t)) # g2, pv2, s1 @ t)
               \<in> set (rmatch (Grp n a) (g', pv', s @ t))"
    by (auto simp: image_iff intro!: bexI [of _ "(g2, pv2, s1 @ t)"])
  then show ?case by blast
next
  case Bol
  then show ?case by simp
next
  case Eol
  then show ?case by simp
next
  case Wordb
  then show ?case by simp
qed

lemma ctxfree_hits:
  assumes "ctxfree r"
  shows "rmatch r (g, pv, s) \<noteq> [] \<longleftrightarrow> hits r s"
proof
  assume "rmatch r (g, pv, s) \<noteq> []"
  then obtain g1 pv1 s1 where "(g1, pv1, s1) \<in> set (rmatch r (g, pv, s))"
    by (cases "rmatch r (g, pv, s)") auto
  from rmatch_extend [OF assms this, of "[]" "[]" None] show "hits r s"
    by (auto simp: hits_def)
next
  assume "hits r s"
  then obtain g1 pv1 s1 where "(g1, pv1, s1) \<in> set (rmatch r ([], None, s))"
    by (cases "rmatch r ([], None, s)") (auto simp: hits_def)
  from rmatch_extend [OF assms this, of "[]" g pv] show "rmatch r (g, pv, s) \<noteq> []"
    by auto
qed

lemma hits_extend:
  assumes "ctxfree r" and "hits r s"
  shows "hits r (s @ t)"
proof -
  from assms(2) obtain g1 pv1 s1 where "(g1, pv1, s1) \<in> set (rmatch r ([], None, s))"
    by (cases "rmatch r ([], None, s)") (auto simp: hits_def)
  from rmatch_extend [OF assms(1) this, of t "[]" None] show ?thesis
    by (auto simp: hits_def)
qed


section \<open>Search and substitution: general facts\<close>

lemma search_from_None_iff:
  "search_from r (pv, s) = None \<longleftrightarrow>
     rmatch r ([], pv, s) = [] \<and> (case s of [] \<Rightarrow> True | c # cs \<Rightarrow> search_from r (Some c, cs) = None)"
  by (subst search_from.simps) (auto split: list.splits)

lemma search_from_NoneI:
  "(\<And>pv b. suffix b s \<Longrightarrow> rmatch r ([], pv, b) = []) \<Longrightarrow> search_from r (pv, s) = None"
proof (induction s arbitrary: pv)
  case Nil
  have "rmatch r ([], pv, []) = []" by (rule Nil) simp
  then show ?case by (simp add: search_from_None_iff)
next
  case (Cons c cs)
  have "rmatch r ([], pv, c # cs) = []" by (rule Cons.prems) simp
  moreover have "search_from r (Some c, cs) = None"
    by (rule Cons.IH, rule Cons.prems) (simp add: suffix_Cons)
  ultimately show ?case by (simp add: search_from_None_iff)
qed

lemma re_sub_from_step_None:
  "List.find (\<lambda>(g, pv', s'). if adv then length s' < length s else True) (rmatch r ([], pv, s)) = None
   \<Longrightarrow> re_sub_from r repl adv (pv, s)
         = (case s of [] \<Rightarrow> [] | c # cs \<Rightarrow> c # re_sub_from r repl False (Some c, cs))"
  by (subst re_sub_from.simps) (simp only: option.case)

lemma re_sub_from_step_Some:
  "List.find (\<lambda>(g, pv', s'). if adv then length s' < length s else True) (rmatch r ([], pv, s))
     = Some (g, pv', s')
   \<Longrightarrow> re_sub_from r repl adv (pv, s)
         = repl @ (if s' = [] then []
                   else if length s' < length s then re_sub_from r repl False (pv', s')
                   else if adv then [] else re_sub_from r repl True (pv, s))"
  by (subst re_sub_from.simps) (simp only: option.case prod.case)

lemma re_sub_from_no_match:
  "search_from r (pv, s) = None \<Longrightarrow> re_sub_from r repl adv (pv, s) = s"
proof (induction s arbitrary: pv adv)
  case Nil
  then have "rmatch r ([], pv, []) = []" by (simp add: search_from_None_iff)
  then have "List.find (\<lambda>(g, pv', s'). if adv then length s' < length ([] :: string) else True)
               (rmatch r ([], pv, [])) = None"
    by (simp only: find.simps)
  from re_sub_from_step_None [OF this] show ?case by simp
next
  case (Cons c cs)
  from Cons.prems have m: "rmatch r ([], pv, c # cs) = []" and
    n: "search_from r (Some c, cs) = None"
    by (simp_all add: search_from_None_iff)
  from m have "List.find (\<lambda>(g, pv', s'). if adv then length s' < length (c # cs) else True)
               (rmatch r ([], pv, c # cs)) = None"
    by (simp only: find.simps)
  from re_sub_from_step_None [OF this] Cons.IH [OF n] show ?case by simp
qed

lemma re_sub_no_match: "re_search r s = None \<Longrightarrow> re_sub r repl s = s"
  by (simp add: re_search_def re_sub_def re_sub_from_no_match)

lemma find_True: "List.find (\<lambda>x. True) xs = (case xs of [] \<Rightarrow> None | x # _ \<Rightarrow> Some x)"
  by (cases xs) simp_all

lemma re_sub_from_False:
  "re_sub_from r repl False (pv, s) =
     (case rmatch r ([], pv, s) of
        [] \<Rightarrow> (case s of [] \<Rightarrow> [] | c # cs \<Rightarrow> c # re_sub_from r repl False (Some c, cs))
      | (g, pv', s') # _ \<Rightarrow>
          repl @ (if s' = [] then []
                  else if length s' < length s then re_sub_from r repl False (pv', s')
                  else re_sub_from r repl True (pv, s)))"
proof -
  have f: "List.find (\<lambda>(g, pv', s'). if False then length s' < length s else True) xs
             = (case xs of [] \<Rightarrow> None | x # _ \<Rightarrow> Some x)" for xs :: "(groups \<times> cursor) list"
    by (cases xs) (simp_all add: case_prod_beta)
  show ?thesis
  proof (cases "rmatch r ([], pv, s)")
    case Nil
    then have "List.find (\<lambda>(g, pv', s'). if False then length s' < length s else True)
                 (rmatch r ([], pv, s)) = None"
      by (simp only: f list.case)
    from re_sub_from_step_None [OF this] Nil show ?thesis by simp
  next
    case (Cons x xs)
    obtain g pv' s' where x: "x = (g, pv', s')" by (cases x)
    from Cons x have "List.find (\<lambda>(g, pv', s'). if False then length s' < length s else True)
                 (rmatch r ([], pv, s)) = Some (g, pv', s')"
      by (simp only: f list.case)
    from re_sub_from_step_Some [OF this] Cons x show ?thesis by simp
  qed
qed

lemma re_sub_from_cut:
  assumes "\<And>pv b. suffix b s \<Longrightarrow>
             (case rmatch r ([], pv, b) of [] \<Rightarrow> True | x # _ \<Rightarrow> snd (snd x) = [])"
  shows "re_sub_from r [] False (pv, s) = cut (\<lambda>cur. rmatch r ([], cur) \<noteq> []) (pv, s)"
  using assms
proof (induction s arbitrary: pv)
  case Nil
  have "case rmatch r ([], pv, []) of [] \<Rightarrow> True | x # _ \<Rightarrow> snd (snd x) = []"
    by (rule Nil) simp
  then show ?case
    by (subst re_sub_from_False) (auto split: list.splits)
next
  case (Cons c cs)
  have h: "case rmatch r ([], pv, c # cs) of [] \<Rightarrow> True | x # _ \<Rightarrow> snd (snd x) = []"
    by (rule Cons.prems) simp
  have ih: "re_sub_from r [] False (Some c, cs) = cut (\<lambda>cur. rmatch r ([], cur) \<noteq> []) (Some c, cs)"
    by (rule Cons.IH, rule Cons.prems) (simp add: suffix_Cons)
  from h ih show ?case
    by (subst re_sub_from_False) (auto split: list.splits)
qed

lemma cut_prefix: "prefix (cut h (pv, s)) s"
  by (induction s arbitrary: pv) auto

lemma cut_ctxfree:
  "ctxfree r \<Longrightarrow>
   cut (\<lambda>cur. rmatch r ([], cur) \<noteq> []) (pv, s) = cut (\<lambda>cur. hits r (snd cur)) (None, s)"
proof (induction s arbitrary: pv)
  case Nil
  show ?case by simp
next
  case (Cons c cs)
  have "cut (\<lambda>cur. rmatch r ([], cur) \<noteq> []) (Some c, cs) = cut (\<lambda>cur. hits r (snd cur)) (None, cs)"
    by (rule Cons.IH) (rule Cons.prems)
  moreover have "cut (\<lambda>cur. hits r (snd cur)) (Some c, cs) = cut (\<lambda>cur. hits r (snd cur)) (None, cs)"
    by (induction cs arbitrary: c) auto
  ultimately show ?case
    using ctxfree_hits [OF Cons.prems, of "[]" pv "c # cs"] by simp
qed

lemma clean_cut:
  assumes ext: "\<And>b t. H b \<Longrightarrow> H (b @ t)" and nonnull: "\<not> H []"
  shows "clean H (cut (\<lambda>cur. H (snd cur)) (pv, s))"
proof (induction s arbitrary: pv)
  case Nil
  show ?case using nonnull by (simp add: clean_def)
next
  case (Cons c cs)
  show ?case
  proof (cases "H (c # cs)")
    case True
    then show ?thesis using nonnull by (simp add: clean_def)
  next
    case False
    let ?a = "cut (\<lambda>cur. H (snd cur)) (Some c, cs)"
    have "prefix ?a cs" by (rule cut_prefix)
    then obtain rest where rest: "cs = ?a @ rest" by (auto simp: prefix_def)
    have "\<not> H (c # ?a)"
    proof
      assume "H (c # ?a)"
      then have "H ((c # ?a) @ rest)" by (rule ext)
      with rest False show False by simp
    qed
    with Cons.IH [of "Some c"] False show ?thesis
      by (auto simp: clean_def suffix_Cons)
  qed
qed

lemma clean_prefix:
  assumes ext: "\<And>b t. H b \<Longrightarrow> H (b @ t)" and "clean H s" and "prefix a s"
  shows "clean H a"
proof -
  from assms(3) obtain t where t: "s = a @ t" by (auto simp: prefix_def)
  show ?thesis
    unfolding clean_def
  proof (intro allI impI notI)
    fix b assume b: "suffix b a" and "H b"
    then have "H (b @ t)" by (intro ext)
    moreover from b t have "suffix (b @ t) s" by (auto simp: suffix_def)
    ultimately show False using assms(2) by (auto simp: clean_def)
  qed
qed

lemma clean_no_match:
  assumes "ctxfree r" and "clean (hits r) s"
  shows "re_search r s = None"
proof -
  have "search_from r (None, s) = None"
  proof (rule search_from_NoneI)
    fix pv b assume "suffix b s"
    with assms(2) have "\<not> hits r b" by (simp add: clean_def)
    with ctxfree_hits [OF assms(1), of "[]" pv b] show "rmatch r ([], pv, b) = []" by simp
  qed
  then show ?thesis by (simp add: re_search_def)
qed

lemma set_re_sub_from: "set (re_sub_from r [] adv (pv, s)) \<subseteq> set s"
proof (induction r "[] :: string" adv "(pv, s)" arbitrary: pv s rule: re_sub_from.induct)
  case (1 r adv pv s)
  let ?F = "List.find (\<lambda>(g, pv', s'). if adv then length s' < length s else True)
              (rmatch r ([], pv, s))"
  show ?case
  proof (cases ?F)
    case None
    show ?thesis
    proof (cases s)
      case Nil
      from re_sub_from_step_None [OF None] Nil show ?thesis by simp
    next
      case (Cons c cs)
      from "1.hyps"(1) [OF None Cons] re_sub_from_step_None [OF None] Cons show ?thesis
        by auto
    qed
  next
    case (Some x)
    obtain g pv' s' where x: "x = (g, pv', s')" by (cases x)
    from Some x have F: "?F = Some (g, pv', s')" by simp
    then have "(g, pv', s') \<in> set (rmatch r ([], pv, s))"
      by (auto simp: find_Some_iff in_set_conv_nth)
    from rmatch_suffix [OF this] obtain u where u: "s = u @ s'" by blast
    note step = re_sub_from_step_Some [OF F, of "[]"]
    show ?thesis
    proof (cases "s' = []")
      case True
      with step show ?thesis by simp
    next
      case ne: False
      show ?thesis
      proof (cases "length s' < length s")
        case True
        from "1.hyps"(2) [OF F refl refl ne True] have "set (re_sub_from r [] False (pv', s')) \<subseteq> set s'" .
        moreover from u have "set s' \<subseteq> set s" by auto
        ultimately show ?thesis using step ne True by auto
      next
        case nl: False
        show ?thesis
        proof (cases adv)
          case True
          with step ne nl show ?thesis by simp
        next
          case False
          from "1.hyps"(3) [OF F refl refl ne nl False] step ne nl False show ?thesis
            by simp
        qed
      qed
    qed
  qed
qed

lemma nl_free_re_sub: "nl_free s \<Longrightarrow> nl_free (re_sub r [] s)"
  using set_re_sub_from [of r False None s] by (auto simp: nl_free_def re_sub_def)

lemma nl_free_prefix: "nl_free s \<Longrightarrow> prefix a s \<Longrightarrow> nl_free a"
  by (auto simp: nl_free_def prefix_def)

lemma nl_free_suffix: "nl_free s \<Longrightarrow> suffix b s \<Longrightarrow> nl_free b"
  by (auto simp: nl_free_def suffix_def)

lemma nl_free_strip: "nl_free s \<Longrightarrow> nl_free (strip s)"
  by (auto simp: nl_free_def strip_def dest!: set_dropWhileD)

lemma re_sub_to_end:
  assumes "to_end r" and "nl_free s"
  shows "re_sub r [] s = cut (\<lambda>cur. rmatch r ([], cur) \<noteq> []) (None, s)"
  unfolding re_sub_def
proof (rule re_sub_from_cut)
  fix pv b assume "suffix b s"
  with assms(2) have "nl_free b" by (rule nl_free_suffix)
  with assms(1) show "case rmatch r ([], pv, b) of [] \<Rightarrow> True | x # _ \<Rightarrow> snd (snd x) = []"
    by (simp add: to_end_def)
qed

lemma re_sub_to_end_prefix:
  assumes "to_end r" and "nl_free s"
  shows "prefix (re_sub r [] s) s"
  by (simp add: re_sub_to_end [OF assms] cut_prefix)

lemma re_sub_clean:
  assumes "to_end r" and "ctxfree r" and "\<not> hits r []" and "nl_free s"
  shows "clean (hits r) (re_sub r [] s)"
proof -
  have "re_sub r [] s = cut (\<lambda>cur. hits r (snd cur)) (None, s)"
    by (simp add: re_sub_to_end [OF assms(1,4)] cut_ctxfree [OF assms(2)])
  moreover have "clean (hits r) (cut (\<lambda>cur. hits r (snd cur)) (None, s))"
    using assms(3) by (intro clean_cut hits_extend [OF assms(2)])
  ultimately show ?thesis by simp
qed

section \<open>Patterns that run to the end of the line\<close>

lemma to_end_Eol: "to_end Eol"
  by (auto simp: to_end_def nl_free_def)

lemma to_end_many_any: "to_end (many any_char)"
  unfolding to_end_def
proof (intro allI impI)
  fix g pv s assume "nl_free s"
  then have "\<forall>c\<in>set s. any_char c"
    by (auto simp: nl_free_def any_char_def)
  then have "takeWhile any_char s = s"
    by (simp only: takeWhile_eq_all_conv)
  then have r: "run any_char None s = length s"
    by (simp only: run_def option.case)
  have "rmatch (many any_char) (g, pv, s)
          = (g, lastc pv (take (length s) s), drop (length s) s)
            # map (\<lambda>k. (g, lastc pv (take k s), drop k s)) (rev [0..<length s])"
    by (simp only: many_def rmatch_Rep r upt_Suc_append [OF le0] rev_append rev.simps
        append_Nil append_Cons list.map)
  then show "case rmatch (many any_char) (g, pv, s) of [] \<Rightarrow> True | x # _ \<Rightarrow> snd (snd x) = []"
    by simp
qed

lemma to_end_Seq:
  assumes "to_end b"
  shows "to_end (Seq a b)"
  unfolding to_end_def
proof (intro allI impI)
  fix g pv s assume nl: "nl_free s"
  have ok: "case rmatch b y of [] \<Rightarrow> True | x # _ \<Rightarrow> snd (snd x) = []"
    if "y \<in> set (rmatch a (g, pv, s))" for y
  proof -
    obtain g1 pv1 s1 where y: "y = (g1, pv1, s1)" by (cases y)
    from rmatch_suffix [of g1 pv1 s1 a g pv s] that y obtain u where "s = u @ s1" by blast
    with nl have "nl_free s1" by (auto simp: nl_free_def)
    with assms y show ?thesis by (simp add: to_end_def)
  qed
  have "case concat (map (rmatch b) ys) of [] \<Rightarrow> True | x # _ \<Rightarrow> snd (snd x) = []"
    if "set ys \<subseteq> set (rmatch a (g, pv, s))" for ys
    using that
  proof (induction ys)
    case Nil
    show ?case by simp
  next
    case (Cons y ys)
    from Cons.prems have "y \<in> set (rmatch a (g, pv, s))" by simp
    from ok [OF this] Cons show ?case
      by (cases "rmatch b y") auto
  qed
  from this [of "rmatch a (g, pv, s)"]
  show "case rmatch (Seq a b) (g, pv, s) of [] \<Rightarrow> True | x # _ \<Rightarrow> snd (snd x) = []"
    by simp
qed


section \<open>The patterns of extract_anime_name\<close>

lemma seqs_Cons2: "seqs (r # r' # rs) = Seq r (seqs (r' # rs))"
  by simp

lemma to_end_name_season: "to_end name_season"
  unfolding name_season_def seqs_Cons2 seqs.simps(2)
  by (intro to_end_Seq to_end_many_any)

lemma to_end_name_ordinal_num: "to_end name_ordinal_num"
  unfolding name_ordinal_num_def seqs_Cons2 seqs.simps(2)
  by (intro to_end_Seq to_end_many_any)

lemma to_end_name_ordinal_word: "to_end name_ordinal_word"
  unfolding name_ordinal_word_def seqs_Cons2 seqs.simps(2)
  by (intro to_end_Seq to_end_many_any)

lemma to_end_name_roman: "to_end name_roman"
  unfolding name_roman_def seqs_Cons2 seqs.simps(2)
  by (intro to_end_Seq to_end_many_any)

lemma to_end_name_part: "to_end name_part"
  unfolding name_part_def seqs_Cons2 seqs.simps(2)
  by (intro to_end_Seq to_end_many_any)

lemma to_end_name_cour: "to_end name_cour"
  unfolding name_cour_def seqs_Cons2 seqs.simps(2)
  by (intro to_end_Seq to_end_many_any)

lemma to_end_name_episode: "to_end name_episode"
  unfolding name_episode_def seqs_Cons2 seqs.simps(2)
  by (intro to_end_Seq to_end_many_any)

lemma to_end_name_dash_number: "to_end name_dash_number"
  unfolding name_dash_number_def seqs_Cons2 seqs.simps(2)
  by (intro to_end_Seq to_end_many_any)

lemma to_end_name_last_bracket: "to_end name_last_bracket"
  unfolding name_last_bracket_def seqs_Cons2 seqs.simps(2)
  by (intro to_end_Seq to_end_Eol)

lemma to_end_name_bracket_tail: "to_end name_bracket_tail"
  unfolding name_bracket_tail_def seqs_Cons2 seqs.simps(2)
  by (intro to_end_Seq to_end_Eol)

lemma ctxfree_ilit [simp]: "ctxfree (ilit w)"
proof -
  have "ctxfree (seqs rs)" if "\<forall>r\<in>set rs. ctxfree r" for rs
    using that by (induction rs rule: seqs.induct) auto
  then show ?thesis by (simp add: ilit_def ichr_def)
qed

lemma ctxfree_many [simp]: "ctxfree (many p)" "ctxfree (many1 p)" "ctxfree (chr c)"
  by (simp_all add: many_def many1_def chr_def)

lemma ctxfree_name_season: "ctxfree name_season"
  by (simp add: name_season_def)

lemma ctxfree_name_ordinal_num: "ctxfree name_ordinal_num"
  by (simp add: name_ordinal_num_def)

lemma ctxfree_name_ordinal_word: "ctxfree name_ordinal_word"
  by (simp add: name_ordinal_word_def)

lemma ctxfree_name_part: "ctxfree name_part"
  by (simp add: name_part_def)

lemma ctxfree_name_cour: "ctxfree name_cour"
  by (simp add: name_cour_def)

lemma ctxfree_name_episode: "ctxfree name_episode"
  by (simp add: name_episode_def)

lemma ctxfree_name_dash_number: "ctxfree name_dash_number"
  by (simp add: name_dash_number_def)

lemma nonnull_name_patterns:
  "\<not> hits name_season []" "\<not> hits name_ordinal_num []" "\<not> hits name_ordinal_word []"
  "\<not> hits name_part []" "\<not> hits name_cour []" "\<not> hits name_episode []"
  "\<not> hits name_dash_number []"
  by code_simp+

text \<open>A step of \<open>extract_anime_name\<close> with an anchor-free pattern leaves no match of its pattern.\<close>

lemma name_step:
  assumes "to_end r" and "ctxfree r" and "\<not> hits r []" and "nl_free s"
  shows "prefix (re_sub r [] s) s \<and> clean (hits r) (re_sub r [] s)"
  using re_sub_to_end_prefix [OF assms(1,4)] re_sub_clean [OF assms] by simp

lemma clean_step_identity:
  assumes "ctxfree r" and "clean (hits r) s" and "prefix a s"
  shows "re_sub r [] a = a"
proof -
  have "clean (hits r) a"
    using assms(2,3) by (intro clean_prefix [of "hits r" s a] hits_extend [OF assms(1)])
  then have "re_search r a = None" by (rule clean_no_match [OF assms(1)])
  then show ?thesis by (rule re_sub_no_match)
qed

section \<open>Brackets\<close>

lemma rmatch_Seq_Cls_absent:
  assumes "\<forall>c\<in>set s. \<not> p c"
  shows "rmatch (Seq a (Seq (Cls p) b)) (g, pv, s) = []"
proof -
  have "rmatch (Seq (Cls p) b) y = []" if "y \<in> set (rmatch a (g, pv, s))" for y
  proof -
    obtain g1 pv1 s1 where y: "y = (g1, pv1, s1)" by (cases y)
    from rmatch_suffix [of g1 pv1 s1 a g pv s] that y obtain u where "s = u @ s1" by blast
    with assms have "\<forall>c\<in>set s1. \<not> p c" by auto
    then have "rmatch (Cls p) (g1, pv1, s1) = []" by (cases s1) auto
    with y show ?thesis by simp
  qed
  then show ?thesis by simp
qed

lemma start_absent:
  assumes "\<forall>c\<in>set b. \<not> one_of ''[('' c"
  shows "rmatch PATTERNS_release_group_start ([], pv, b) = []"
proof -
  have "\<not> (\<lambda>c. c = CHR ''['') c \<and> \<not> (\<lambda>c. c = CHR ''('') c" if "\<not> one_of ''[('' c" for c
    using that by (simp add: one_of_def)
  with assms have 1: "\<forall>c\<in>set b. \<not> (\<lambda>c. c = CHR ''['') c"
    and 2: "\<forall>c\<in>set b. \<not> (\<lambda>c. c = CHR ''('') c"
    by blast+
  have "rmatch (Seq Bol (Seq (Cls (\<lambda>c. c = CHR ''['')) x)) ([], pv, b) = []" for x
    by (rule rmatch_Seq_Cls_absent [where p = "\<lambda>c. c = CHR ''[''", OF 1])
  moreover have "rmatch (Seq Bol (Seq (Cls (\<lambda>c. c = CHR ''('')) x)) ([], pv, b) = []" for x
    by (rule rmatch_Seq_Cls_absent [where p = "\<lambda>c. c = CHR ''(''", OF 2])
  ultimately show ?thesis
    by (simp only: PATTERNS_release_group_start_def alts.simps seqs_Cons2 seqs.simps(2) chr_def
        rmatch.simps(3) append_Nil)
qed

lemma bracket_absent:
  assumes "\<forall>c\<in>set b. \<not> one_of ''[('' c"
  shows "rmatch name_last_bracket ([], pv, b) = []" and "rmatch name_bracket_tail ([], pv, b) = []"
proof -
  have r: "rmatch (Seq (many is_space) (Seq (Cls (one_of ''[('')) x)) ([], pv, b) = []" for x
    by (rule rmatch_Seq_Cls_absent [where p = "one_of ''[(''", OF assms])
  show "rmatch name_last_bracket ([], pv, b) = []"
    by (simp only: name_last_bracket_def seqs_Cons2 seqs.simps(2) r)
  show "rmatch name_bracket_tail ([], pv, b) = []"
    by (simp only: name_bracket_tail_def seqs_Cons2 seqs.simps(2) r)
qed

lemma absent_suffix:
  assumes "\<forall>c\<in>set s. \<not> p c" and "suffix b s"
  shows "\<forall>c\<in>set b. \<not> p c"
proof -
  from assms(2) have "set b \<subseteq> set s" by (auto simp: suffix_def)
  with assms(1) show ?thesis by blast
qed

lemma no_bracket_no_match:
  assumes "\<forall>c\<in>set s. \<not> one_of ''[('' c"
  shows "re_search PATTERNS_release_group_start s = None"
    and "re_search name_last_bracket s = None"
    and "re_search name_bracket_tail s = None"
proof -
  have "search_from PATTERNS_release_group_start (None, s) = None"
  proof (rule search_from_NoneI)
    fix pv b assume "suffix b s"
    from absent_suffix [OF assms this]
    show "rmatch PATTERNS_release_group_start ([], pv, b) = []" by (rule start_absent)
  qed
  then show "re_search PATTERNS_release_group_start s = None" by (simp add: re_search_def)
  have "search_from name_last_bracket (None, s) = None"
  proof (rule search_from_NoneI)
    fix pv b assume "suffix b s"
    from absent_suffix [OF assms this]
    show "rmatch name_last_bracket ([], pv, b) = []" by (rule bracket_absent(1))
  qed
  then show "re_search name_last_bracket s = None" by (simp add: re_search_def)
  have "search_from name_bracket_tail (None, s) = None"
  proof (rule search_from_NoneI)
    fix pv b assume "suffix b s"
    from absent_suffix [OF assms this]
    show "rmatch name_bracket_tail ([], pv, b) = []" by (rule bracket_absent(2))
  qed
  then show "re_search name_bracket_tail s = None" by (simp add: re_search_def)
qed

lemma rmatch_many_any_hd:
  assumes "nl_free s"
  shows "\<exists>pv' more. rmatch (many any_char) (g, pv, s) = (g, pv', []) # more"
proof -
  from assms have "\<forall>c\<in>set s. any_char c"
    by (auto simp: nl_free_def any_char_def)
  then have "takeWhile any_char s = s"
    by (simp only: takeWhile_eq_all_conv)
  then have r: "run any_char None s = length s"
    by (simp only: run_def option.case)
  have "rmatch (many any_char) (g, pv, s)
          = (g, lastc pv (take (length s) s), drop (length s) s)
            # map (\<lambda>k. (g, lastc pv (take k s), drop k s)) (rev [0..<length s])"
    by (simp only: many_def rmatch_Rep r upt_Suc_append [OF le0] rev_append rev.simps
        append_Nil append_Cons list.map)
  then show ?thesis by simp
qed

lemma open_not_space: "one_of ''[('' c \<Longrightarrow> \<not> is_space c"
  by (auto simp: one_of_def is_space_def ord_def)

lemma bracket_tail_hits:
  assumes "one_of ''[('' c" and "nl_free cs"
  shows "rmatch name_bracket_tail (g, pv, c # cs) \<noteq> []"
proof -
  from assms(1) have ns: "\<not> is_space c" by (rule open_not_space)
  then have "run is_space None (c # cs) = 0" by (simp add: run_Cons)
  then have a: "rmatch (many is_space) (g, pv, c # cs) = [(g, pv, c # cs)]"
    by (simp add: many_def rmatch_Rep)
  from assms(1) have b: "rmatch (Cls (one_of ''[('')) (g, pv, c # cs) = [(g, Some c, cs)]"
    by simp
  from rmatch_many_any_hd [OF assms(2)] obtain pv' more where
    m: "rmatch (many any_char) (g, Some c, cs) = (g, pv', []) # more" by blast
  have e: "rmatch Eol (g, pv', []) = [(g, pv', [])]" by simp
  show ?thesis
    unfolding name_bracket_tail_def seqs_Cons2 seqs.simps(2) rmatch.simps(2)
    by (simp only: a b m e list.map concat.simps append_Nil2 append_Cons) simp
qed

lemma cut_bracket_tail:
  assumes "nl_free s"
  shows "\<forall>c\<in>set (cut (\<lambda>cur. rmatch name_bracket_tail ([], cur) \<noteq> []) (pv, s)). \<not> one_of ''[('' c"
  using assms
proof (induction s arbitrary: pv)
  case Nil
  show ?case by simp
next
  case (Cons c cs)
  from Cons.prems have nl: "nl_free cs" by (simp add: nl_free_def)
  show ?case
  proof (cases "one_of ''[('' c")
    case True
    from bracket_tail_hits [OF True nl] show ?thesis by simp
  next
    case False
    from Cons.IH [OF nl, of "Some c"] False show ?thesis
      by (simp del: one_of_def)
  qed
qed

section \<open>strip\<close>

lemma strip_Nil [simp]: "strip [] = []"
  by (simp add: strip_def)

lemma strip_hd: "strip s \<noteq> [] \<Longrightarrow> \<not> is_space (hd (strip s))"
proof -
  assume ne: "strip s \<noteq> []"
  let ?d = "dropWhile is_space s"
  have p: "prefix (strip s) ?d"
    unfolding strip_def
    by (metis prefix_def rev_append rev_rev_ident takeWhile_dropWhile_id)
  with ne have "?d \<noteq> []" by (cases ?d) (simp_all del: dropWhile_eq_Nil_conv)
  then have "\<not> is_space (hd ?d)" by (rule hd_dropWhile)
  moreover from p ne have "hd (strip s) = hd ?d"
    by (auto simp: prefix_def)
  ultimately show ?thesis by simp
qed

lemma strip_last: "strip s \<noteq> [] \<Longrightarrow> \<not> is_space (last (strip s))"
proof -
  assume ne: "strip s \<noteq> []"
  let ?r = "dropWhile is_space (rev (dropWhile is_space s))"
  from ne have "?r \<noteq> []" by (simp add: strip_def)
  then have "\<not> is_space (hd ?r)" by (rule hd_dropWhile)
  then show ?thesis using \<open>?r \<noteq> []\<close> by (simp add: strip_def last_rev)
qed

lemma strip_id:
  assumes "s \<noteq> []" and "\<not> is_space (hd s)" and "\<not> is_space (last s)"
  shows "strip s = s"
proof -
  from assms(1,2) have a: "dropWhile is_space s = s" by (cases s) auto
  from assms(1,3) have "dropWhile is_space (rev s) = rev s"
    by (cases "rev s") (auto simp: last_rev [symmetric] hd_rev)
  with a show ?thesis by (simp add: strip_def)
qed

lemma strip_strip [simp]: "strip (strip s) = strip s"
proof (cases "strip s = []")
  case True
  then show ?thesis by simp
next
  case False
  then show ?thesis by (intro strip_id strip_hd strip_last)
qed

lemma strip_prefix:
  assumes "s \<noteq> []" and "\<not> is_space (hd s)"
  shows "prefix (strip s) s"
proof -
  from assms have "dropWhile is_space s = s" by (cases s) auto
  then have "strip s = rev (dropWhile is_space (rev s))" by (simp add: strip_def)
  then show ?thesis
    by (metis prefix_def rev_append rev_rev_ident takeWhile_dropWhile_id)
qed


section \<open>The reported match\<close>

lemma first_match_Cls: "p c \<Longrightarrow> first_match (Cls p) (g, pv, c # cs) = Some (g, Some c, cs)"
  by (simp add: first_match_def)

lemma first_match_Seq:
  "first_match a x = Some y \<Longrightarrow> first_match b y = Some z \<Longrightarrow> first_match (Seq a b) x = Some z"
  by (auto simp: first_match_def split: list.splits)

lemma first_match_Alt1: "first_match a x = Some y \<Longrightarrow> first_match (Alt a b) x = Some y"
  by (auto simp: first_match_def split: list.splits)

lemma first_match_Alt2: "rmatch a x = [] \<Longrightarrow> first_match (Alt a b) x = first_match b x"
  by (simp add: first_match_def)

lemma first_match_Opt1: "first_match a x = Some y \<Longrightarrow> first_match (Opt a) x = Some y"
  by (auto simp: first_match_def split: list.splits)

lemma first_match_Opt2: "rmatch a x = [] \<Longrightarrow> first_match (Opt a) x = Some x"
  by (simp add: first_match_def)

lemma first_match_Grp:
  "first_match a (g, pv, s) = Some (g', pv', s') \<Longrightarrow>
   first_match (Grp n a) (g, pv, s) = Some ((n, take (length s - length s') s) # g', pv', s')"
  by (auto simp: first_match_def split: list.splits)

lemma first_match_Rep:
  assumes "lo \<le> run p hi s"
  shows "first_match (Rep lo hi p) (g, pv, s)
           = Some (g, lastc pv (take (run p hi s) s), drop (run p hi s) s)"
proof -
  from assms have "[lo..<Suc (run p hi s)] = [lo..<run p hi s] @ [run p hi s]"
    by simp
  then show ?thesis
    by (simp add: first_match_def rmatch_Rep del: upt_Suc)
qed

lemma first_match_Bol: "first_match Bol (g, None, s) = Some (g, None, s)"
  by (simp add: first_match_def)

lemma first_match_Eol: "first_match Eol (g, pv, []) = Some (g, pv, [])"
  by (simp add: first_match_def)

lemma search_from_first:
  "first_match r ([], pv, s) = Some x \<Longrightarrow> search_from r (pv, s) = Some ([], x)"
  by (subst search_from.simps) (auto simp: first_match_def split: list.splits)

lemma search_from_skip:
  "rmatch r ([], pv, c # cs) = [] \<Longrightarrow>
   search_from r (pv, c # cs) = map_option (\<lambda>(skipped, x). (c # skipped, x)) (search_from r (Some c, cs))"
  by (subst search_from.simps) simp

lemma re_search_first:
  "first_match r ([], None, s) = Some (g, cur) \<Longrightarrow> re_search r s = Some g"
  by (simp add: re_search_def search_from_first)

lemma run_all:
  assumes "\<forall>c\<in>set w. p c" and "t = [] \<or> \<not> p (hd t)"
  shows "run p None (w @ t) = length w"
proof -
  from assms have "takeWhile p (w @ t) = w"
    by (cases t) (auto simp: takeWhile_append2)
  then show ?thesis by (simp add: run_def)
qed

lemma run_all_bounded:
  assumes "\<forall>c\<in>set w. p c" and "length w \<le> h"
  shows "run p (Some h) w = length w"
proof -
  from assms(1) have tw: "takeWhile p w = w" by (simp add: takeWhile_eq_all_conv)
  show ?thesis unfolding run_def tw using assms(2) by simp
qed

lemma rmatch_reads_only:
  "reads_only q r \<Longrightarrow> (g', pv', s') \<in> set (rmatch r (g, pv, s)) \<Longrightarrow>
   \<exists>u. s = u @ s' \<and> (\<forall>c\<in>set u. q c)"
proof (induction r arbitrary: g pv s g' pv' s')
  case (Cls p)
  from Cls.prems(2) obtain c where "s = c # s'" "p c"
    by (cases s) (auto split: if_splits)
  with Cls.prems(1) have "s = [c] @ s' \<and> (\<forall>x\<in>set [c]. q x)" by simp
  then show ?case by blast
next
  case (Seq a b)
  from Seq.prems(2) obtain g1 pv1 s1 where
    a: "(g1, pv1, s1) \<in> set (rmatch a (g, pv, s))" and
    b: "(g', pv', s') \<in> set (rmatch b (g1, pv1, s1))"
    by auto
  from Seq.prems(1) have ra: "reads_only q a" and rb: "reads_only q b" by simp_all
  from Seq.IH(1) [OF ra a] obtain u where u: "s = u @ s1" "\<forall>c\<in>set u. q c" by blast
  from Seq.IH(2) [OF rb b] obtain v where v: "s1 = v @ s'" "\<forall>c\<in>set v. q c" by blast
  from u v have "s = (u @ v) @ s' \<and> (\<forall>c\<in>set (u @ v). q c)" by auto
  then show ?case by blast
next
  case (Alt a b)
  from Alt.prems(2) have
    "(g', pv', s') \<in> set (rmatch a (g, pv, s)) \<or> (g', pv', s') \<in> set (rmatch b (g, pv, s))"
    by auto
  with Alt.IH Alt.prems(1) show ?case by auto
next
  case (Opt a)
  from Opt.prems(2) have
    "(g', pv', s') \<in> set (rmatch a (g, pv, s)) \<or> (g', pv', s') = (g, pv, s)"
    by auto
  then show ?case
  proof
    assume "(g', pv', s') \<in> set (rmatch a (g, pv, s))"
    with Opt.IH Opt.prems(1) show ?thesis by auto
  next
    assume "(g', pv', s') = (g, pv, s)"
    then have "s = [] @ s' \<and> (\<forall>c\<in>set []. q c)" by simp
    then show ?thesis by blast
  qed
next
  case (Rep lo hi p)
  from Rep.prems(2) have "\<exists>k. k \<le> run p hi s \<and> s' = drop k s"
    by (auto simp: rmatch_Rep less_Suc_eq_le simp del: upt_Suc)
  then obtain k where k: "k \<le> run p hi s" "s' = drop k s"
    by (elim conjE exE) (rule that; assumption)
  from run_takeWhile [OF k(1)] Rep.prems(1) have "\<forall>c\<in>set (take k s). q c" by auto
  with k(2) have "s = take k s @ s' \<and> (\<forall>c\<in>set (take k s). q c)" by simp
  then show ?case by blast
next
  case (Grp n a)
  from Grp.prems(2) obtain g1 where "(g1, pv', s') \<in> set (rmatch a (g, pv, s))"
    by auto
  with Grp.IH Grp.prems(1) show ?case by auto
next
  case Bol
  then have "s = [] @ s' \<and> (\<forall>c\<in>set []. q c)" by (auto split: if_splits)
  then show ?case by blast
next
  case Eol
  then have "s = [] @ s' \<and> (\<forall>c\<in>set []. q c)" by (auto split: if_splits)
  then show ?case by blast
next
  case Wordb
  then have "s = [] @ s' \<and> (\<forall>c\<in>set []. q c)" by (auto split: if_splits)
  then show ?case by blast
qed


section \<open>The release group of a title\<close>

lemma start_square:
  assumes "nm \<noteq> []" and "CHR '']'' \<notin> set nm"
  shows "first_match PATTERNS_release_group_start ([], None, CHR ''['' # nm @ CHR '']'' # rest)
           = Some ([(1, nm)], Some CHR '']'', rest)"
proof -
  have run: "run (none_of '']'') None (nm @ CHR '']'' # rest) = length nm"
    by (rule run_all) (use assms(2) in \<open>auto simp: none_of_def\<close>)
  have lo: "1 \<le> run (none_of '']'') None (nm @ CHR '']'' # rest)"
    using assms(1) by (simp add: run Suc_le_eq)
  show ?thesis
    unfolding PATTERNS_release_group_start_def alts.simps seqs_Cons2 seqs.simps(2) chr_def many1_def
    apply (rule first_match_Alt1)
    apply (rule first_match_Seq [OF first_match_Bol])
    apply (rule first_match_Seq [OF first_match_Cls])
     apply simp
    apply (rule first_match_Seq [OF first_match_Grp [OF first_match_Rep [OF lo]]])
    apply (simp add: run first_match_def)
    done
qed

lemma start_round:
  assumes "nm \<noteq> []" and "CHR '')'' \<notin> set nm"
  shows "first_match PATTERNS_release_group_start ([], None, CHR ''('' # nm @ CHR '')'' # rest)
           = Some ([(2, nm)], Some CHR '')'', rest)"
proof -
  have run: "run (none_of '')'') None (nm @ CHR '')'' # rest) = length nm"
    by (rule run_all) (use assms(2) in \<open>auto simp: none_of_def\<close>)
  have lo: "1 \<le> run (none_of '')'') None (nm @ CHR '')'' # rest)"
    using assms(1) by (simp add: run Suc_le_eq)
  have no: "rmatch (Seq Bol (Seq (Cls (\<lambda>c. c = CHR ''['')) x)) ([], None, CHR ''('' # s) = []" for x s
    by simp
  show ?thesis
    unfolding PATTERNS_release_group_start_def alts.simps seqs_Cons2 seqs.simps(2) chr_def many1_def
    apply (subst first_match_Alt2 [OF no])
    apply (rule first_match_Seq [OF first_match_Bol])
    apply (rule first_match_Seq [OF first_match_Cls])
     apply simp
    apply (rule first_match_Seq [OF first_match_Grp [OF first_match_Rep [OF lo]]])
    apply (simp add: run first_match_def)
    done
qed

lemma alnum_not_hyphen: "ascii_alnum c \<Longrightarrow> c \<noteq> CHR ''-''"
  by (auto simp: ascii_alnum_def ord_def)

lemma lower_not_hyphen: "ascii_lower c \<Longrightarrow> c \<noteq> CHR ''-''"
  by (auto simp: ascii_lower_def ord_def)

lemma rmatch_Seq_mem:
  "z \<in> set (rmatch (Seq a b) x) \<longleftrightarrow> (\<exists>y\<in>set (rmatch a x). z \<in> set (rmatch b y))"
  by simp

lemma rmatch_Seq_Cls_Cons:
  "rmatch (Seq (Cls p) r) (g, pv, c # s) = (if p c then rmatch r (g, Some c, s) else [])"
  by simp

lemma end_token_here:
  assumes "tok \<noteq> []" and "\<forall>c\<in>set tok. ascii_alnum c"
    and "ext = [] \<or> (\<exists>e. ext = CHR ''.'' # e \<and> 2 \<le> length e \<and> length e \<le> 4
                         \<and> (\<forall>c\<in>set e. ascii_lower c))"
  shows "\<exists>cur. first_match PATTERNS_release_group_end ([], pv, CHR ''-'' # tok @ ext)
                 = Some ([(1, tok)], cur)"
proof -
  have "\<not> ascii_alnum CHR ''.''" by (simp add: ascii_alnum_def ord_def)
  with assms(3) have "ext = [] \<or> \<not> ascii_alnum (hd ext)" by auto
  with assms(2) have run: "run ascii_alnum None (tok @ ext) = length tok"
    by (rule run_all)
  have lo: "1 \<le> run ascii_alnum None (tok @ ext)"
    using assms(1) by (simp add: run Suc_le_eq)
  have grp: "first_match (Grp 1 (Rep 1 None ascii_alnum)) ([], Some CHR ''-'', tok @ ext)
               = Some ([(1, tok)], lastc (Some CHR ''-'') tok, ext)"
    using first_match_Grp [OF first_match_Rep [OF lo], of 1 "[]" "Some CHR ''-''"]
    by (simp add: run)
  have tail: "\<exists>cur. first_match (Seq (Opt (Seq (Cls (\<lambda>c. c = CHR ''.'')) (Rep 2 (Some 4) ascii_lower))) Eol)
                  (g, pv', ext) = Some (g, cur)" for g pv'
    using assms(3)
  proof
    assume "ext = []"
    then show ?thesis by (simp add: first_match_def)
  next
    assume "\<exists>e. ext = CHR ''.'' # e \<and> 2 \<le> length e \<and> length e \<le> 4 \<and> (\<forall>c\<in>set e. ascii_lower c)"
    then obtain e where e: "ext = CHR ''.'' # e" "2 \<le> length e" "length e \<le> 4"
      "\<forall>c\<in>set e. ascii_lower c"
      by (elim conjE exE) (rule that; assumption)
    from e(4) e(3) have r: "run ascii_lower (Some 4) e = length e" by (rule run_all_bounded)
    with e(2) have lo2: "2 \<le> run ascii_lower (Some 4) e" by simp
    have "first_match (Seq (Opt (Seq (Cls (\<lambda>c. c = CHR ''.'')) (Rep 2 (Some 4) ascii_lower))) Eol)
            (g, pv', CHR ''.'' # e) = Some (g, lastc (Some CHR ''.'') e, [])"
      apply (rule first_match_Seq)
       apply (rule first_match_Opt1)
       apply (rule first_match_Seq [OF first_match_Cls])
        apply simp
       apply (rule first_match_Rep [OF lo2])
      apply (simp add: r first_match_def)
      done
    with e(1) show ?thesis by blast
  qed
  from tail [of "[(1, tok)]" "lastc (Some CHR ''-'') tok"] obtain cur where
    cur: "first_match (Seq (Opt (Seq (Cls (\<lambda>c. c = CHR ''.'')) (Rep 2 (Some 4) ascii_lower))) Eol)
            ([(1, tok)], lastc (Some CHR ''-'') tok, ext) = Some ([(1, tok)], cur)"
    by blast
  have "first_match PATTERNS_release_group_end ([], pv, CHR ''-'' # tok @ ext) = Some ([(1, tok)], cur)"
    unfolding PATTERNS_release_group_end_def seqs_Cons2 seqs.simps(2) chr_def many1_def
    apply (rule first_match_Seq [OF first_match_Cls])
     apply simp
    apply (rule first_match_Seq [OF grp])
    apply (rule cur)
    done
  then show ?thesis by blast
qed

lemma end_token_later:
  "rmatch PATTERNS_release_group_end ([], pv, c # pre @ CHR ''-'' # rest) = []"
proof (rule ccontr)
  let ?G = "Grp 1 (Rep 1 None ascii_alnum)"
  let ?O = "Opt (Seq (Cls (\<lambda>c. c = CHR ''.'')) (Rep 2 (Some 4) ascii_lower))"
  let ?q = "\<lambda>c. c \<noteq> CHR ''-''"
  assume "rmatch PATTERNS_release_group_end ([], pv, c # pre @ CHR ''-'' # rest) \<noteq> []"
  then obtain z where "z \<in> set (rmatch PATTERNS_release_group_end ([], pv, c # pre @ CHR ''-'' # rest))"
    by (cases "rmatch PATTERNS_release_group_end ([], pv, c # pre @ CHR ''-'' # rest)") auto
  then have "z \<in> set (rmatch (Seq (Cls (\<lambda>c. c = CHR ''-'')) (Seq ?G (Seq ?O Eol)))
                        ([], pv, c # pre @ CHR ''-'' # rest))"
    by (simp only: PATTERNS_release_group_end_def seqs_Cons2 seqs.simps(2) chr_def many1_def)
  then have "z \<in> set (rmatch (Seq ?G (Seq ?O Eol)) ([], Some c, pre @ CHR ''-'' # rest))"
    by (simp only: rmatch_Seq_Cls_Cons split: if_splits) simp
  then obtain y1 y2 where y1: "y1 \<in> set (rmatch ?G ([], Some c, pre @ CHR ''-'' # rest))"
    and y2: "y2 \<in> set (rmatch ?O y1)" and z: "z \<in> set (rmatch Eol y2)"
    by (simp only: rmatch_Seq_mem) blast
  obtain g1 pv1 s1 where c1: "y1 = (g1, pv1, s1)" by (cases y1)
  obtain g2 pv2 s2 where c2: "y2 = (g2, pv2, s2)" by (cases y2)
  have "reads_only ?q ?G" by (simp add: alnum_not_hyphen)
  from rmatch_reads_only [OF this y1 [unfolded c1]] obtain u where
    u: "pre @ CHR ''-'' # rest = u @ s1" "\<forall>c\<in>set u. c \<noteq> CHR ''-''" by blast
  have "reads_only ?q ?O" by (simp add: lower_not_hyphen)
  from rmatch_reads_only [OF this y2 [unfolded c1 c2]] obtain v where
    v: "s1 = v @ s2" "\<forall>c\<in>set v. c \<noteq> CHR ''-''" by blast
  have "CHR ''-'' \<in> set (pre @ CHR ''-'' # rest)" by simp
  with u v have "CHR ''-'' \<in> set s2" by auto
  then have "s2 \<noteq> [] \<and> s2 \<noteq> [CHR 0x0A]" by auto
  with z c2 show False by simp
qed

lemma end_token_search:
  assumes "tok \<noteq> []" and "\<forall>c\<in>set tok. ascii_alnum c"
    and "ext = [] \<or> (\<exists>e. ext = CHR ''.'' # e \<and> 2 \<le> length e \<and> length e \<le> 4
                         \<and> (\<forall>c\<in>set e. ascii_lower c))"
  shows "\<exists>cur. search_from PATTERNS_release_group_end (pv, pre @ CHR ''-'' # tok @ ext)
                 = Some (pre, [(1, tok)], cur)"
proof (induction pre arbitrary: pv)
  case Nil
  from end_token_here [OF assms, of pv] obtain cur where
    "first_match PATTERNS_release_group_end ([], pv, CHR ''-'' # tok @ ext) = Some ([(1, tok)], cur)"
    by blast
  from search_from_first [OF this] show ?case by simp
next
  case (Cons c pre)
  from Cons.IH [of "Some c"] obtain cur where
    "search_from PATTERNS_release_group_end (Some c, pre @ CHR ''-'' # tok @ ext)
       = Some (pre, [(1, tok)], cur)"
    by blast
  with search_from_skip [OF end_token_later [of pv c pre "tok @ ext"]]
  have "search_from PATTERNS_release_group_end (pv, (c # pre) @ CHR ''-'' # tok @ ext)
          = Some (c # pre, [(1, tok)], cur)"
    by simp
  then show ?case by blast
qed

lemma release_group_leading:
  "nm \<noteq> [] \<Longrightarrow> CHR '']'' \<notin> set nm \<Longrightarrow> extract_release_group (CHR ''['' # nm @ CHR '']'' # rest) = nm"
  "nm \<noteq> [] \<Longrightarrow> CHR '')'' \<notin> set nm \<Longrightarrow> extract_release_group (CHR ''('' # nm @ CHR '')'' # rest) = nm"
  by (simp_all add: extract_release_group_def re_search_first [OF start_square]
      re_search_first [OF start_round] group_def str_or_def the_str_def)

lemma release_group_trailing:
  assumes "re_search PATTERNS_release_group_start (pre @ CHR ''-'' # tok @ ext) = None"
    and "tok \<noteq> []" and "\<forall>c\<in>set tok. ascii_alnum c"
    and "ext = [] \<or> (\<exists>e. ext = CHR ''.'' # e \<and> 2 \<le> length e \<and> length e \<le> 4
                         \<and> (\<forall>c\<in>set e. ascii_lower c))"
  shows "extract_release_group (pre @ CHR ''-'' # tok @ ext) = tok"
proof -
  from end_token_search [OF assms(2,3,4), of None pre] obtain cur where
    "search_from PATTERNS_release_group_end (None, pre @ CHR ''-'' # tok @ ext)
       = Some (pre, [(1, tok)], cur)"
    by blast
  then have "re_search PATTERNS_release_group_end (pre @ CHR ''-'' # tok @ ext) = Some [(1, tok)]"
    by (simp add: re_search_def)
  with assms(1) show ?thesis
    by (simp add: extract_release_group_def group_def the_str_def)
qed

lemma release_group_unknown:
  "re_search PATTERNS_release_group_start t = None \<Longrightarrow>
   re_search PATTERNS_release_group_end t = None \<Longrightarrow> extract_release_group t = ''Unknown''"
  by (simp add: extract_release_group_def)


section \<open>The conversion of a matched run of digits\<close>

lemma digit_not_int_space: "is_digit c \<Longrightarrow> \<not> is_int_space c"
  by (auto simp: is_digit_def is_int_space_def)

lemma digit_not_sign: "is_digit c \<Longrightarrow> c \<noteq> CHR ''-'' \<and> c \<noteq> CHR ''+'' \<and> c \<noteq> CHR ''_''"
  by (auto simp: is_digit_def ord_def)

lemma int_literal_digits: "d \<noteq> [] \<Longrightarrow> list_all is_digit d \<Longrightarrow> int_literal d"
  by (induction d rule: int_literal.induct) (auto simp: digit_not_sign)

lemma py_int_digit_run:
  assumes "digit_run d"
  shows "py_int d = (if length d \<le> max_str_digits then Some (int (dec_value d)) else None)"
proof -
  from assms have ne: "d \<noteq> []" and all: "list_all is_digit d"
    by (simp_all add: digit_run_def)
  from ne all have h: "is_digit (hd d)" and l: "is_digit (last d)"
    by (simp_all add: list_all_iff)
  have 1: "dropWhile is_int_space d = d"
    using h digit_not_int_space by (simp add: dropWhile_eq_self_iff)
  have 2: "dropWhile is_int_space (rev d) = rev d"
    using l ne digit_not_int_space by (simp add: dropWhile_eq_self_iff hd_rev)
  have 3: "(case d of [] \<Rightarrow> False | c # _ \<Rightarrow> c = CHR ''-'') = False"
    using h ne digit_not_sign by (cases d) auto
  have 4: "(case d of [] \<Rightarrow> [] | c # r \<Rightarrow> if c = CHR ''-'' \<or> c = CHR ''+'' then r else d) = d"
    using h ne digit_not_sign by (cases d) auto
  have 5: "filter is_digit d = d"
    using all by (simp add: list_all_iff)
  show ?thesis
    unfolding py_int_def Let_def 1 2 rev_rev_ident 3 4 5
    using int_literal_digits [OF ne all] by simp
qed

lemma int_of_digits_run:
  "digit_run d \<Longrightarrow>
   int_of_digits (Some d)
     = (if length d \<le> max_str_digits then Inr (int (dec_value d)) else Inl ValueError)"
  by (simp add: int_of_digits_def py_int_digit_run)

lemma grp_free_keeps:
  "grp_free n r \<Longrightarrow> (g', pv', s') \<in> set (rmatch r (g, pv, s)) \<Longrightarrow> map_of g' n = map_of g n"
proof (induction r arbitrary: g pv s g' pv' s')
  case (Cls p)
  then show ?case by (cases s) (auto split: if_splits)
next
  case (Seq a b)
  from Seq.prems(2) obtain g1 pv1 s1 where
    a: "(g1, pv1, s1) \<in> set (rmatch a (g, pv, s))" and
    b: "(g', pv', s') \<in> set (rmatch b (g1, pv1, s1))"
    by auto
  from Seq.prems(1) Seq.IH(1) [OF _ a] Seq.IH(2) [OF _ b] show ?case by simp
next
  case (Alt a b)
  from Alt.prems(2) have
    "(g', pv', s') \<in> set (rmatch a (g, pv, s)) \<or> (g', pv', s') \<in> set (rmatch b (g, pv, s))"
    by auto
  with Alt.IH Alt.prems(1) show ?case by auto
next
  case (Opt a)
  from Opt.prems(2) have
    "(g', pv', s') \<in> set (rmatch a (g, pv, s)) \<or> (g', pv', s') = (g, pv, s)"
    by auto
  with Opt.IH Opt.prems(1) show ?case by auto
next
  case (Rep lo hi p)
  then show ?case by (auto simp: rmatch_Rep simp del: upt_Suc)
next
  case (Grp k a)
  from Grp.prems(2) obtain g1 where g1: "(g1, pv', s') \<in> set (rmatch a (g, pv, s))"
    and g': "g' = (k, take (length s - length s') s) # g1"
    by auto
  from Grp.prems(1) Grp.IH [OF _ g1] g' show ?case by simp
next
  case Bol
  then show ?case by (auto split: if_splits)
next
  case Eol
  then show ?case by (auto split: if_splits)
next
  case Wordb
  then show ?case by (auto split: if_splits)
qed

lemma rmatch_shorter:
  "(g', pv', s') \<in> set (rmatch r (g, pv, s)) \<Longrightarrow> length s' \<le> length s"
  by (drule rmatch_suffix) auto

lemma captures_Grp:
  assumes "digit_rep a" and "(g', pv', s') \<in> set (rmatch (Grp n a) (g, pv, s))"
  shows "\<exists>d. map_of g' n = Some d \<and> digit_run d \<and> length d \<le> length s"
proof -
  from assms(1) obtain lo hi p where a: "a = Rep lo hi p" and lo: "1 \<le> lo"
    and p: "\<forall>c. p c \<longrightarrow> is_digit c"
    by (cases a) auto
  from assms(2) a obtain g1 where g': "g' = (n, take (length s - length s') s) # g1"
    and m: "(g1, pv', s') \<in> set (rmatch (Rep lo hi p) (g, pv, s))"
    by auto
  from m have "\<exists>k. lo \<le> k \<and> k \<le> run p hi s \<and> s' = drop k s"
    by (auto simp: rmatch_Rep less_Suc_eq_le simp del: upt_Suc)
  then obtain k where k: "lo \<le> k" "k \<le> run p hi s" "s' = drop k s"
    by (elim conjE exE) (rule that; assumption)
  from k(2) run_le_length [of p hi s] have kl: "k \<le> length s" by simp
  with k(3) have d: "take (length s - length s') s = take k s" by simp
  from run_takeWhile [OF k(2)] p have "list_all is_digit (take k s)"
    by (auto simp: list_all_iff)
  moreover from lo k(1) kl have "take k s \<noteq> []" by auto
  ultimately have "digit_run (take k s)" by (simp add: digit_run_def)
  with g' d show ?thesis by simp
qed

lemma captures_sound:
  "captures n r \<Longrightarrow> (g', pv', s') \<in> set (rmatch r (g, pv, s)) \<Longrightarrow>
   \<exists>d. map_of g' n = Some d \<and> digit_run d \<and> length d \<le> length s"
proof (induction r arbitrary: g pv s g' pv' s')
  case (Seq a b)
  from Seq.prems(2) obtain g1 pv1 s1 where
    a: "(g1, pv1, s1) \<in> set (rmatch a (g, pv, s))" and
    b: "(g', pv', s') \<in> set (rmatch b (g1, pv1, s1))"
    by auto
  from rmatch_shorter [OF a] have len: "length s1 \<le> length s" .
  from Seq.prems(1) have "captures n b \<or> (captures n a \<and> grp_free n b)" by simp
  then show ?case
  proof
    assume "captures n b"
    from Seq.IH(2) [OF this b] len show ?thesis by auto
  next
    assume c: "captures n a \<and> grp_free n b"
    then have "map_of g' n = map_of g1 n" using grp_free_keeps [OF _ b] by simp
    with Seq.IH(1) [OF _ a] c show ?thesis by simp
  qed
next
  case (Alt a b)
  from Alt.prems(2) have
    "(g', pv', s') \<in> set (rmatch a (g, pv, s)) \<or> (g', pv', s') \<in> set (rmatch b (g, pv, s))"
    by auto
  with Alt.IH Alt.prems(1) show ?case by auto
next
  case (Grp k a)
  from Grp.prems(1) have "k = n" "digit_rep a" by simp_all
  with captures_Grp [of a g' pv' s' n g pv s] Grp.prems(2) show ?case by simp
qed simp_all

lemma search_from_SomeD:
  "search_from r (pv, s) = Some (skipped, m, cur) \<Longrightarrow>
   \<exists>pv0 b. length b \<le> length s \<and> (m, cur) \<in> set (rmatch r ([], pv0, b))"
proof (induction s arbitrary: pv skipped)
  case Nil
  then have "(m, cur) \<in> set (rmatch r ([], pv, []))"
    by (subst (asm) search_from.simps) (auto split: list.splits)
  then show ?case by fastforce
next
  case (Cons c cs)
  show ?case
  proof (cases "rmatch r ([], pv, c # cs)")
    case Nil
    with Cons.prems obtain sk where "search_from r (Some c, cs) = Some (sk, m, cur)"
      by (subst (asm) search_from.simps) auto
    from Cons.IH [OF this] obtain pv0 b where
      "length b \<le> length cs" "(m, cur) \<in> set (rmatch r ([], pv0, b))" by blast
    then have "length b \<le> length (c # cs) \<and> (m, cur) \<in> set (rmatch r ([], pv0, b))" by simp
    then show ?thesis by blast
  next
    case (Cons x xs)
    with Cons.prems have "x = (m, cur)"
      by (subst (asm) search_from.simps) auto
    with Cons have "length (c # cs) \<le> length (c # cs) \<and> (m, cur) \<in> set (rmatch r ([], pv, c # cs))"
      by simp
    then show ?thesis by blast
  qed
qed

lemma re_search_SomeD:
  assumes "re_search r t = Some m"
  shows "\<exists>pv b pv' s'. length b \<le> length t \<and> (m, pv', s') \<in> set (rmatch r ([], pv, b))"
proof -
  from assms obtain skipped pv' s' where "search_from r (None, t) = Some (skipped, m, pv', s')"
    by (auto simp: re_search_def)
  from search_from_SomeD [OF this] show ?thesis by blast
qed

lemma captured_search:
  assumes "captures n r" and "re_search r t = Some m"
  shows "\<exists>d. group m n = Some d \<and> digit_run d \<and> length d \<le> length t"
proof -
  from re_search_SomeD [OF assms(2)] obtain pv b pv' s' where
    b: "length b \<le> length t" and m: "(m, pv', s') \<in> set (rmatch r ([], pv, b))"
    by blast
  from captures_sound [OF assms(1) m] b show ?thesis
    by (auto simp: group_def)
qed

lemma captures_patterns:
  "captures 1 PATTERNS_season" "captures 1 PATTERNS_season_ordinal_num"
  "captures 1 PATTERNS_season_part" "captures 1 PATTERNS_season_cour"
  by (simp_all add: PATTERNS_season_def PATTERNS_season_ordinal_num_def PATTERNS_season_part_def
      PATTERNS_season_cour_def ilit_def ichr_def many1_def)

lemma episode_group:
  assumes "re_search PATTERNS_episode t = Some m"
  shows "\<exists>d. str_or (group m 1) (group m 2) = Some d \<and> digit_run d \<and> length d \<le> length t"
proof -
  let ?A = "seqs [alts [ilit ''E'',
                       seqs [ilit ''Ep'', Opt (chr CHR ''.''), Opt (Cls is_space)],
                       seqs [ilit ''Episode'', Opt (Cls is_space)]],
                 Grp 1 (many1 is_digit)]"
  let ?B = "seqs [Cls (\<lambda>c. is_space c \<or> c = CHR ''-''), Opt (Cls is_space),
                 Grp 2 (Rep 2 (Some 3) is_digit),
                 alts [Cls is_space, Eol, chr CHR ''['', chr CHR ''('']]"
  have A: "captures 1 ?A" by (simp add: ilit_def ichr_def many1_def chr_def)
  have B: "captures 2 ?B" "grp_free 1 ?B" by (simp_all add: chr_def)
  from re_search_SomeD [OF assms] obtain pv b pv' s' where
    b: "length b \<le> length t" and m: "(m, pv', s') \<in> set (rmatch PATTERNS_episode ([], pv, b))"
    by blast
  from m have "(m, pv', s') \<in> set (rmatch ?A ([], pv, b)) \<or> (m, pv', s') \<in> set (rmatch ?B ([], pv, b))"
    by (simp only: PATTERNS_episode_def alts.simps rmatch.simps(3) set_append Un_iff)
  then show ?thesis
  proof
    assume a: "(m, pv', s') \<in> set (rmatch ?A ([], pv, b))"
    from captures_sound [OF A a] b show ?thesis
      by (auto simp: group_def str_or_def digit_run_def)
  next
    assume a: "(m, pv', s') \<in> set (rmatch ?B ([], pv, b))"
    from grp_free_keeps [OF B(2) a] have "group m 1 = None" by (simp add: group_def)
    with captures_sound [OF B(1) a] b show ?thesis
      by (auto simp: group_def str_or_def)
  qed
qed

section \<open>When the extractors return\<close>

lemma by_digits_cases:
  assumes "captures 1 pattern"
  shows "(\<exists>r. by_digits pattern t = Inr r)
         \<or> (by_digits pattern t = Inl ValueError \<and> max_str_digits < length t)"
proof (cases "re_search pattern t")
  case None
  then show ?thesis by (simp add: by_digits_def)
next
  case (Some m)
  from captured_search [OF assms Some] obtain d where
    d: "group m 1 = Some d" "digit_run d" "length d \<le> length t" by blast
  with Some int_of_digits_run [OF d(2)] show ?thesis
    by (auto simp: by_digits_def)
qed

lemma first_resolved_cases:
  "\<forall>x\<in>set xs. (\<exists>r. x = Inr r) \<or> (x = Inl ValueError \<and> Q) \<Longrightarrow>
   (\<exists>r. first_resolved xs = Inr r) \<or> (first_resolved xs = Inl ValueError \<and> Q)"
  by (induction xs rule: first_resolved.induct) auto

lemma season_number_strategies:
  "extract_season_number t = first_resolved (map (\<lambda>strategy. strategy t) season_strategies)"
  by (simp add: extract_season_number_def season_strategies_def by_digits_def by_word_def
      split: option.splits sum.splits)

lemma season_number_cases:
  "(\<exists>r. extract_season_number t = Inr r)
   \<or> (extract_season_number t = Inl ValueError \<and> max_str_digits < length t)"
  unfolding season_number_strategies
proof (rule first_resolved_cases)
  have "\<exists>r. by_word pattern parse t = Inr r" for pattern parse
    by (simp add: by_word_def split: option.splits)
  with by_digits_cases [OF captures_patterns(1), of t] by_digits_cases [OF captures_patterns(2), of t]
    by_digits_cases [OF captures_patterns(3), of t] by_digits_cases [OF captures_patterns(4), of t]
  show "\<forall>x\<in>set (map (\<lambda>strategy. strategy t) season_strategies).
          (\<exists>r. x = Inr r) \<or> (x = Inl ValueError \<and> max_str_digits < length t)"
    by (simp add: season_strategies_def)
qed

lemma season_standard:
  assumes "re_search PATTERNS_season t = Some m"
  shows "\<exists>d. group m 1 = Some d \<and> digit_run d
             \<and> extract_season_number t
                 = (if length d \<le> max_str_digits then Inr (Some (int (dec_value d)))
                    else Inl ValueError)"
proof -
  from captured_search [OF captures_patterns(1) assms] obtain d where
    d: "group m 1 = Some d" "digit_run d" by blast
  with assms int_of_digits_run [OF d(2)] show ?thesis
    by (simp add: extract_season_number_def)
qed

lemma season_cases:
  "(\<exists>label. extract_season title d = Inr label)
   \<or> (extract_season title d = Inl ValueError
       \<and> (max_str_digits < length title \<or> max_str_digits < length d))"
  using season_number_cases [of title] season_number_cases [of d]
  by (auto simp: extract_season_def split: option.splits sum.splits)

lemma season_title_first:
  "extract_season title d
     = (case first_resolved [extract_season_number title, extract_season_number d] of
          Inl e \<Rightarrow> Inl e
        | Inr (Some n) \<Rightarrow> Inr (''Season '' @ str_of_int n)
        | Inr None \<Rightarrow> Inr ''Season 1'')"
  by (simp add: extract_season_def split: option.splits sum.splits)

lemma episode_cases:
  "(\<exists>label. extract_episode title = Inr label)
   \<or> (extract_episode title = Inl ValueError \<and> max_str_digits < length title)"
proof (cases "re_search PATTERNS_episode title")
  case None
  then show ?thesis by (simp add: extract_episode_def)
next
  case (Some m)
  from episode_group [OF Some] obtain d where
    d: "str_or (group m 1) (group m 2) = Some d" "digit_run d" "length d \<le> length title"
    by blast
  with Some int_of_digits_run [OF d(2)] show ?thesis
    by (auto simp: extract_episode_def)
qed

lemma metadata_cases:
  "(\<exists>md. extract_metadata_from_detail detail = Inr md
         \<and> release_group md
             = (if dict_get detail ''submitter'' ''Anonymous'' \<noteq> []
                   \<and> dict_get detail ''submitter'' ''Anonymous'' \<noteq> ''Anonymous''
                then dict_get detail ''submitter'' ''Anonymous''
                else extract_release_group (dict_get detail ''title'' '''')))
   \<or> (extract_metadata_from_detail detail = Inl ValueError
       \<and> (max_str_digits < length (dict_get detail ''title'' '''')
           \<or> max_str_digits < length (dict_get detail ''description'' '''')))"
  using season_cases [of "dict_get detail ''title'' ''''" "dict_get detail ''description'' ''''"]
    episode_cases [of "dict_get detail ''title'' ''''"]
  by (auto simp: extract_metadata_from_detail_def Let_def)

section \<open>A run of digits over the limit\<close>

lemma long_digits_run: "digit_run long_digits" "length long_digits = 4301"
  by (simp_all add: long_digits_def digit_run_def list_all_iff is_digit_def ord_def)

lemma season_long_digits:
  "first_match PATTERNS_season ([], None, CHR ''S'' # long_digits @ '' Part 2'')
     = Some ([(1, long_digits)], lastc (Some CHR ''S'') long_digits, '' Part 2'')"
proof -
  have "list_all is_digit long_digits" using long_digits_run(1) by (simp add: digit_run_def)
  then have all: "\<forall>c\<in>set long_digits. is_digit c" by (simp add: list_all_iff)
  have "\<not> is_digit (hd '' Part 2'')" by (simp add: is_digit_def ord_def)
  then have "'' Part 2'' = [] \<or> \<not> is_digit (hd '' Part 2'')" by blast
  with all have run: "run is_digit None (long_digits @ '' Part 2'') = length long_digits"
    by (rule run_all)
  have lo: "1 \<le> run is_digit None (long_digits @ '' Part 2'')"
    by (simp add: run long_digits_run(2))
  have S: "lower CHR ''S'' = lower CHR ''S''" by simp
  show ?thesis
    unfolding PATTERNS_season_def alts.simps seqs_Cons2 seqs.simps(2) ilit_def list.map ichr_def
      many1_def
    apply (rule first_match_Seq)
     apply (rule first_match_Alt1)
     apply (rule first_match_Cls)
     apply (rule S)
    using first_match_Grp [OF first_match_Rep [OF lo], of 1 "[]" "Some CHR ''S''"]
    apply (simp add: run)
    done
qed

lemma season_number_long_digits:
  "extract_season_number (CHR ''S'' # long_digits @ '' Part 2'') = Inl ValueError"
  using re_search_first [OF season_long_digits] int_of_digits_run [OF long_digits_run(1)]
  by (simp add: extract_season_number_def group_def long_digits_run(2) max_str_digits_def)

lemma py_int_long_digits: "py_int long_digits = None"
  by (simp add: py_int_digit_run [OF long_digits_run(1)] long_digits_run(2) max_str_digits_def)


section \<open>Substitution by the empty string only removes text\<close>

lemma shrink_trans:
  assumes "length b \<le> length a \<and> (length b = length a \<longrightarrow> b = a)"
    and "length c \<le> length b \<and> (length c = length b \<longrightarrow> c = b)"
  shows "length c \<le> length a \<and> (length c = length a \<longrightarrow> c = a)"
  using assms by auto

lemma re_sub_from_shrinks:
  "length (re_sub_from r [] adv (pv, s)) \<le> length s
   \<and> (length (re_sub_from r [] adv (pv, s)) = length s \<longrightarrow> re_sub_from r [] adv (pv, s) = s)"
proof (induction r "[] :: string" adv "(pv, s)" arbitrary: pv s rule: re_sub_from.induct)
  case (1 r adv pv s)
  let ?F = "List.find (\<lambda>(g, pv', s'). if adv then length s' < length s else True)
              (rmatch r ([], pv, s))"
  show ?case
  proof (cases ?F)
    case None
    show ?thesis
    proof (cases s)
      case Nil
      from re_sub_from_step_None [OF None] Nil show ?thesis by simp
    next
      case (Cons c cs)
      from "1.hyps"(1) [OF None Cons] re_sub_from_step_None [OF None] Cons show ?thesis
        by auto
    qed
  next
    case (Some x)
    obtain g pv' s' where x: "x = (g, pv', s')" by (cases x)
    from Some x have F: "?F = Some (g, pv', s')" by simp
    note step = re_sub_from_step_Some [OF F, of "[]"]
    show ?thesis
    proof (cases "s' = []")
      case True
      with step show ?thesis by auto
    next
      case ne: False
      show ?thesis
      proof (cases "length s' < length s")
        case True
        from "1.hyps"(2) [OF F refl refl ne True]
        have "length (re_sub_from r [] False (pv', s')) \<le> length s'" by simp
        with step ne True show ?thesis by auto
      next
        case nl: False
        show ?thesis
        proof (cases adv)
          case True
          with step ne nl show ?thesis by auto
        next
          case False
          from "1.hyps"(3) [OF F refl refl ne nl False] step ne nl False show ?thesis
            by simp
        qed
      qed
    qed
  qed
qed

lemma re_sub_shrinks:
  "length (re_sub r [] s) \<le> length s \<and> (length (re_sub r [] s) = length s \<longrightarrow> re_sub r [] s = s)"
  unfolding re_sub_def by (rule re_sub_from_shrinks)

lemma dropWhile_shrinks:
  "length (dropWhile P xs) \<le> length xs
   \<and> (length (dropWhile P xs) = length xs \<longrightarrow> dropWhile P xs = xs)"
proof -
  have "length (takeWhile P xs) + length (dropWhile P xs) = length xs"
    by (metis length_append takeWhile_dropWhile_id)
  moreover have "takeWhile P xs = [] \<Longrightarrow> dropWhile P xs = xs"
    by (metis append_Nil takeWhile_dropWhile_id)
  ultimately show ?thesis by auto
qed

lemma strip_shrinks:
  "length (strip s) \<le> length s \<and> (length (strip s) = length s \<longrightarrow> strip s = s)"
proof -
  let ?a = "dropWhile is_space s"
  have 1: "length ?a \<le> length s \<and> (length ?a = length s \<longrightarrow> ?a = s)"
    by (rule dropWhile_shrinks)
  have "length (dropWhile is_space (rev ?a)) \<le> length (rev ?a)
        \<and> (length (dropWhile is_space (rev ?a)) = length (rev ?a)
             \<longrightarrow> dropWhile is_space (rev ?a) = rev ?a)"
    by (rule dropWhile_shrinks)
  then have 2: "length (strip s) \<le> length ?a \<and> (length (strip s) = length ?a \<longrightarrow> strip s = ?a)"
    by (auto simp: strip_def)
  from shrink_trans [OF 1 2] show ?thesis .
qed

lemma consumes_shorter:
  "consumes r \<Longrightarrow> (g', pv', s') \<in> set (rmatch r (g, pv, s)) \<Longrightarrow> length s' < length s"
proof (induction r arbitrary: g pv s g' pv' s')
  case (Cls p)
  then show ?case by (cases s) (auto split: if_splits)
next
  case (Seq a b)
  from Seq.prems(2) obtain g1 pv1 s1 where
    a: "(g1, pv1, s1) \<in> set (rmatch a (g, pv, s))" and
    b: "(g', pv', s') \<in> set (rmatch b (g1, pv1, s1))"
    by auto
  from Seq.prems(1) have "consumes a \<or> consumes b" by simp
  then show ?case
  proof
    assume "consumes a"
    from Seq.IH(1) [OF this a] rmatch_shorter [OF b] show ?thesis by simp
  next
    assume "consumes b"
    from Seq.IH(2) [OF this b] rmatch_shorter [OF a] show ?thesis by simp
  qed
next
  case (Alt a b)
  from Alt.prems(2) have
    "(g', pv', s') \<in> set (rmatch a (g, pv, s)) \<or> (g', pv', s') \<in> set (rmatch b (g, pv, s))"
    by auto
  with Alt.IH Alt.prems(1) show ?case by auto
next
  case (Rep lo hi p)
  from Rep.prems(2) have "\<exists>k. lo \<le> k \<and> k \<le> run p hi s \<and> s' = drop k s"
    by (auto simp: rmatch_Rep less_Suc_eq_le simp del: upt_Suc)
  then obtain k where k: "lo \<le> k" "k \<le> run p hi s" "s' = drop k s"
    by (elim conjE exE) (rule that; assumption)
  from k(2) run_le_length [of p hi s] have "k \<le> length s" by simp
  with k(1,3) Rep.prems(1) show ?case by simp
next
  case (Grp n a)
  from Grp.prems(2) obtain g1 where "(g1, pv', s') \<in> set (rmatch a (g, pv, s))"
    by auto
  with Grp.IH Grp.prems(1) show ?case by auto
qed simp_all

lemma re_sub_from_shortens:
  "consumes r \<Longrightarrow> search_from r (pv, s) \<noteq> None \<Longrightarrow>
   length (re_sub_from r [] False (pv, s)) < length s"
proof (induction s arbitrary: pv)
  case Nil
  from Nil.prems(2) obtain x where "x \<in> set (rmatch r ([], pv, []))"
    by (cases "rmatch r ([], pv, [])") (auto simp: search_from_None_iff)
  moreover obtain g' pv' s' where "x = (g', pv', s')" by (cases x)
  ultimately show ?case using consumes_shorter [OF Nil.prems(1), of g' pv' s' "[]" pv "[]"] by simp
next
  case (Cons c cs)
  show ?case
  proof (cases "rmatch r ([], pv, c # cs)")
    case Nil
    with Cons.prems(2) have "search_from r (Some c, cs) \<noteq> None"
      by (simp add: search_from_None_iff)
    from Cons.IH [OF Cons.prems(1) this] Nil show ?thesis
      by (simp add: re_sub_from_False)
  next
    case (Cons x xs)
    obtain g' pv' s' where x: "x = (g', pv', s')" by (cases x)
    with Cons have "(g', pv', s') \<in> set (rmatch r ([], pv, c # cs))" by simp
    from consumes_shorter [OF Cons.prems(1) this] have sh: "length s' < length (c # cs)" .
    have "length (re_sub_from r [] False (pv', s')) \<le> length s'"
      using re_sub_from_shrinks [of r False pv' s'] by simp
    with sh Cons x show ?thesis
      by (simp add: re_sub_from_False)
  qed
qed

lemma re_sub_shortens:
  "consumes r \<Longrightarrow> re_search r s \<noteq> None \<Longrightarrow> length (re_sub r [] s) < length s"
  unfolding re_sub_def by (rule re_sub_from_shortens) (simp_all add: re_search_def)

lemma consumes_name_roman: "consumes name_roman"
  by (simp add: name_roman_def ilit_def ichr_def many_def many1_def)

text \<open>
  A string that holds a Roman-numeral season form is not a fixed point of
  \<open>extract_anime_name\<close>: some step up to the one of the Roman numerals removes text.
\<close>

lemma roman_not_fixed:
  assumes "re_search name_roman x \<noteq> None"
  shows "extract_anime_name x \<noteq> x"
proof -
  define t0 where "t0 = strip (re_sub PATTERNS_release_group_start [] x)"
  define t1 where "t1 = re_sub name_season [] t0"
  define t2 where "t2 = re_sub name_ordinal_num [] t1"
  define t3 where "t3 = re_sub name_ordinal_word [] t2"
  define t4 where "t4 = re_sub name_roman [] t3"
  define t5 where "t5 = re_sub name_part [] t4"
  define t6 where "t6 = re_sub name_cour [] t5"
  define t7 where "t7 = re_sub name_episode [] t6"
  define t8 where "t8 = re_sub name_dash_number [] t7"
  define t9 where "t9 = re_sub name_last_bracket [] t8"
  define t10 where "t10 = re_sub name_bracket_tail [] t9"
  have ean: "extract_anime_name x = (if strip t10 = [] then ''Unknown'' else strip t10)"
    by (simp add: extract_anime_name_def Let_def t0_def t1_def t2_def t3_def t4_def t5_def
        t6_def t7_def t8_def t9_def t10_def)
  have k0: "length t0 \<le> length x \<and> (length t0 = length x \<longrightarrow> t0 = x)"
    unfolding t0_def by (rule shrink_trans [OF re_sub_shrinks strip_shrinks])
  have k1: "length t1 \<le> length x \<and> (length t1 = length x \<longrightarrow> t1 = x)"
    unfolding t1_def by (rule shrink_trans [OF k0 re_sub_shrinks])
  have k2: "length t2 \<le> length x \<and> (length t2 = length x \<longrightarrow> t2 = x)"
    unfolding t2_def by (rule shrink_trans [OF k1 re_sub_shrinks])
  have k3: "length t3 \<le> length x \<and> (length t3 = length x \<longrightarrow> t3 = x)"
    unfolding t3_def by (rule shrink_trans [OF k2 re_sub_shrinks])
  have k4: "length t4 < length x"
  proof (cases "t3 = x")
    case True
    with re_sub_shortens [OF consumes_name_roman assms] show ?thesis by (simp add: t4_def)
  next
    case False
    with k3 have "length t3 < length x" by auto
    with re_sub_shrinks [of name_roman t3] show ?thesis by (simp add: t4_def)
  qed
  have "length t5 \<le> length t4" unfolding t5_def using re_sub_shrinks by blast
  moreover have "length t6 \<le> length t5" unfolding t6_def using re_sub_shrinks by blast
  moreover have "length t7 \<le> length t6" unfolding t7_def using re_sub_shrinks by blast
  moreover have "length t8 \<le> length t7" unfolding t8_def using re_sub_shrinks by blast
  moreover have "length t9 \<le> length t8" unfolding t9_def using re_sub_shrinks by blast
  moreover have "length t10 \<le> length t9" unfolding t10_def using re_sub_shrinks by blast
  moreover have "length (strip t10) \<le> length t10" using strip_shrinks by blast
  ultimately have short: "length (strip t10) < length x" using k4 by simp
  show ?thesis
  proof (cases "strip t10 = []")
    case True
    have "re_search name_roman ''Unknown'' = None" by code_simp
    with assms have "x \<noteq> ''Unknown''" by auto
    with ean True show ?thesis by simp
  next
    case False
    with ean short show ?thesis by auto
  qed
qed


section \<open>An episode number over the limit of int\<close>

lemma str_replace_absent:
  "old \<noteq> [] \<Longrightarrow> hd old \<notin> set s \<Longrightarrow> str_replace old new s = s"
proof (induction s)
  case Nil
  then show ?case by (subst str_replace.simps) simp
next
  case (Cons c cs)
  from Cons.prems have "\<not> prefix old (c # cs)"
    by (cases old) auto
  with Cons show ?case by (subst str_replace.simps) simp
qed

lemma long_episode_unparsed:
  "py_int (str_replace ''Episode '' '''' (''Episode '' @ long_digits)) = None"
proof -
  have "CHR ''E'' \<notin> set long_digits" by (simp add: long_digits_def)
  then have "str_replace ''Episode '' '''' long_digits = long_digits"
    by (intro str_replace_absent) simp_all
  then have "str_replace ''Episode '' '''' (''Episode '' @ long_digits) = long_digits"
    by (subst str_replace.simps) simp
  with py_int_long_digits show ?thesis by simp
qed

lemma single_group:
  assumes "metadata t \<noteq> None"
  shows "\<exists>g. group_torrents_deterministic [t] n = Inr ([g], [t])
            \<and> episode_range g = episode_range_of [t]"
proof -
  have ens: "map (ensure_metadata n) [t] = [t]"
    by (rule map_ensure_metadata_id) (use assms in simp)
  have K: "first_seen (map key_of [t]) = [key_of t]" by simp
  from gtd_closed [of "[t]" n] obtain gs0 where
    r: "group_torrents_deterministic [t] n = Inr (sort_by_seeders_desc gs0, [t])" and
    la: "list_all2 (\<lambda>k g. make_group (bucket k [t]) = Inr g) [key_of t] gs0"
    unfolding ens K by blast
  from la obtain g where g: "gs0 = [g]" "make_group (bucket (key_of t) [t]) = Inr g"
    by (auto simp: list_all2_Cons1)
  have "bucket (key_of t) [t] = [t]" by (simp add: bucket_def)
  with g(2) have "episode_range g = episode_range_of [t]" by (auto dest: make_group_fields)
  then show ?thesis using r g(1) by (simp add: sort_by_seeders_desc_def)
qed

lemma long_episode_various:
  "map episode_range (returned_groups (group_torrents_deterministic long_episode_example ''Test Anime''))
     = [''Various'']"
proof -
  let ?t = "sample_torrent ''1'' 100 (Some (sample_metadata ''Group'' (''Episode '' @ long_digits)))"
  have m: "metadata ?t \<noteq> None" by (simp add: sample_torrent_def)
  have "parsed_episodes [?t] = []"
    using long_episode_unparsed
    by (simp add: parsed_episodes_def List.map_filter_simps sample_torrent_def sample_metadata_def)
  then have "episode_range_of [?t] = ''Various''"
    by (simp add: episode_range_of_char)
  with single_group [OF m, of "''Test Anime''"] show ?thesis
    by (auto simp: long_episode_example_def returned_groups_def)
qed


section \<open>Claims about the grouping\<close>

text \<open>
  Claim C1, as it holds on the code. \<^verbatim>\<open>group_torrents_deterministic\<close> returns, and every
  group it returns has an episode range computed from the \<^emph>\<open>list\<close> of its members' episode
  fields parsed to integers (unparsable values ignored, one entry for each member whose field
  parses): \<open>Various\<close> when the list is empty, \<open>Episode n\<close> when exactly one member has a
  parsable episode, and \<open>Episodes min-max\<close> when two or more members have one (also when their
  numbers are equal). A field does not parse when \<^verbatim>\<open>int\<close> raises \<^verbatim>\<open>ValueError\<close>, which it
  also does on more than 4300 digits. Episodes 1, 5, 3 in one group give \<open>Episodes 1-5\<close>, a
  group with no parsable episode gives \<open>Various\<close>, a group of one torrent with episode 1 gives
  \<open>Episode 1\<close>, and a group of one torrent whose episode number has 4301 digits gives
  \<open>Various\<close>.
\<close>

theorem C1_episode_range:
  "(\<exists>gs ts'. group_torrents_deterministic ts n = Inr (gs, ts')
      \<and> (\<forall>g\<in>set gs.
           episode_range g =
             (let es = parsed_episodes (torrents g) in
              if es = [] then ''Various''
              else if length es = 1 then ''Episode '' @ str_of_int (hd es)
              else ''Episodes '' @ str_of_int (Min (set es)) @ ''-'' @ str_of_int (Max (set es)))))
   \<and> map episode_range (returned_groups (group_torrents_deterministic episodes_example ''Test Anime''))
       = [''Episodes 1-5'']
   \<and> map episode_range (returned_groups (group_torrents_deterministic no_episode_example ''Test Anime''))
       = [''Various'']
   \<and> map episode_range (returned_groups (group_torrents_deterministic single_episode_example ''Test Anime''))
       = [''Episode 1'']
   \<and> map episode_range (returned_groups (group_torrents_deterministic long_episode_example ''Test Anime''))
       = [''Various'']"
proof -
  from gtd_closed [of ts n] obtain gs where
    gs: "group_torrents_deterministic ts n = Inr (gs, map (ensure_metadata n) ts)" by blast
  have "episode_range g = episode_range_of (torrents g)" if "g \<in> set gs" for g
    using gtd_groups [OF gs that] by (auto dest: make_group_fields)
  then have general: "\<exists>gs ts'. group_torrents_deterministic ts n = Inr (gs, ts')
      \<and> (\<forall>g\<in>set gs.
           episode_range g =
             (let es = parsed_episodes (torrents g) in
              if es = [] then ''Various''
              else if length es = 1 then ''Episode '' @ str_of_int (hd es)
              else ''Episodes '' @ str_of_int (Min (set es)) @ ''-'' @ str_of_int (Max (set es))))"
    using gs by (auto simp: episode_range_of_char)
  have e1: "map episode_range (returned_groups (group_torrents_deterministic episodes_example ''Test Anime''))
       = [''Episodes 1-5'']"
    by code_simp
  have e2: "map episode_range (returned_groups (group_torrents_deterministic no_episode_example ''Test Anime''))
       = [''Various'']"
    by code_simp
  have e3: "map episode_range (returned_groups (group_torrents_deterministic single_episode_example ''Test Anime''))
       = [''Episode 1'']"
    by code_simp
  note e4 = long_episode_various
  from general e1 e2 e3 e4 show ?thesis by blast
qed

text \<open>
  Witness of C1 on the three torrents with episodes 1, 5 and 3: the call returns at least one
  group, so the statement about every returned group is not empty.
\<close>

theorem C1_episode_range_witness:
  "\<exists>gs ts'. group_torrents_deterministic episodes_example ''Test Anime'' = Inr (gs, ts')
      \<and> gs \<noteq> []
      \<and> (\<forall>g\<in>set gs.
           episode_range g =
             (let es = parsed_episodes (torrents g) in
              if es = [] then ''Various''
              else if length es = 1 then ''Episode '' @ str_of_int (hd es)
              else ''Episodes '' @ str_of_int (Min (set es)) @ ''-'' @ str_of_int (Max (set es))))"
proof -
  from C1_episode_range [of episodes_example "''Test Anime''"] obtain gs ts' where
    h: "group_torrents_deterministic episodes_example ''Test Anime'' = Inr (gs, ts')"
       "\<forall>g\<in>set gs.
           episode_range g =
             (let es = parsed_episodes (torrents g) in
              if es = [] then ''Various''
              else if length es = 1 then ''Episode '' @ str_of_int (hd es)
              else ''Episodes '' @ str_of_int (Min (set es)) @ ''-'' @ str_of_int (Max (set es)))"
    and ex: "map episode_range (returned_groups (group_torrents_deterministic episodes_example ''Test Anime''))
       = [''Episodes 1-5'']"
    by (elim conjE exE) (rule that; assumption)
  from h(1) ex have "gs \<noteq> []" by (auto simp: returned_groups_def)
  with h show ?thesis by blast
qed

text \<open>
  Counterexample to C1 as stated. Two torrents of one group both carry episode 1: the parsed
  episodes form the singleton set \<open>{1}\<close>, for which the claim gives \<open>Episode 1\<close>, but the
  code counts list entries and returns \<open>Episodes 1-1\<close>.
\<close>

theorem C1_counterexample:
  "map episode_range (returned_groups (group_torrents_deterministic same_episode_example ''Test Anime''))
     = [''Episodes 1-1'']
   \<and> map spec_group_label (returned_groups (group_torrents_deterministic same_episode_example ''Test Anime''))
     = [''Episode 1'']"
  by code_simp

text \<open>
  Claim C2. Two metadata records that differ in exactly one of the six key fields have
  different group keys, and two torrents carrying them are put into two groups of one torrent
  each.
\<close>

theorem C2_key_completeness:
  assumes "length (filter (\<lambda>(a, b). a \<noteq> b) (zip (key_fields m1) (key_fields m2))) = 1"
  shows "group_key m1 \<noteq> group_key m2 \<and>
         (\<exists>gs. group_torrents_deterministic [t1\<lparr>metadata := Some m1\<rparr>, t2\<lparr>metadata := Some m2\<rparr>] n
               = Inr (gs, [t1\<lparr>metadata := Some m1\<rparr>, t2\<lparr>metadata := Some m2\<rparr>])
            \<and> length gs = 2
            \<and> set (map torrents gs) = {[t1\<lparr>metadata := Some m1\<rparr>], [t2\<lparr>metadata := Some m2\<rparr>]})"
  using key_fields_differ [OF assms] two_groups by blast

text \<open>Witness of C2: release group \<open>SubsPlease\<close> against \<open>Erai-raws\<close>, all else equal.\<close>

theorem C2_key_completeness_witness:
  "length (filter (\<lambda>(a, b). a \<noteq> b)
      (zip (key_fields (sample_metadata ''SubsPlease'' ''Episode 1''))
           (key_fields (sample_metadata ''Erai-raws'' ''Episode 1'')))) = 1
   \<and> group_key (sample_metadata ''SubsPlease'' ''Episode 1'')
       \<noteq> group_key (sample_metadata ''Erai-raws'' ''Episode 1'')
   \<and> (\<exists>gs. group_torrents_deterministic
              [(sample_torrent ''1'' 100 None)\<lparr>metadata := Some (sample_metadata ''SubsPlease'' ''Episode 1'')\<rparr>,
               (sample_torrent ''2'' 100 None)\<lparr>metadata := Some (sample_metadata ''Erai-raws'' ''Episode 1'')\<rparr>]
              ''Test Anime''
            = Inr (gs,
              [(sample_torrent ''1'' 100 None)\<lparr>metadata := Some (sample_metadata ''SubsPlease'' ''Episode 1'')\<rparr>,
               (sample_torrent ''2'' 100 None)\<lparr>metadata := Some (sample_metadata ''Erai-raws'' ''Episode 1'')\<rparr>])
          \<and> length gs = 2)"
proof -
  have h: "length (filter (\<lambda>(a, b). a \<noteq> b)
      (zip (key_fields (sample_metadata ''SubsPlease'' ''Episode 1''))
           (key_fields (sample_metadata ''Erai-raws'' ''Episode 1'')))) = 1"
    by (simp add: key_fields_def sample_metadata_def)
  from C2_key_completeness [OF h, of "sample_torrent ''1'' 100 None" "sample_torrent ''2'' 100 None" "''Test Anime''"] h
  show ?thesis by blast
qed

text \<open>
  Claim C3. A call returns, and a second call on the same list (as the first call left it)
  returns the same groups: same names, same members, same order; it leaves the list as it is.
\<close>

theorem C3_determinism:
  "\<exists>gs ts'. group_torrents_deterministic ts n = Inr (gs, ts')
      \<and> group_torrents_deterministic ts' n = Inr (gs, ts')"
proof (cases "ts = []")
  case True
  then show ?thesis by (simp add: gtd_Nil)
next
  case False
  from gtd_nonempty [OF False, of n] obtain gs0 where
    "group_torrents_deterministic ts n = Inr (sort_by_seeders_desc gs0, map (ensure_metadata n) ts)"
    by blast
  then show ?thesis using gtd_ensure_again [OF False, of n] by simp
qed

text \<open>
  Claim C4. The returned groups are in descending order of their total seeders, and for every
  value \<open>c\<close> the groups whose total is \<open>c\<close> appear in the order in which their keys are first
  encountered in the input. Seeders 50, 100, 30 over two keys (50 and 30 on the first, 100 on
  the second) give the totals 100, 80 in this order.
\<close>

theorem C4_sorted_by_total_seeders:
  "(\<exists>gs ts'. group_torrents_deterministic ts n = Inr (gs, ts')
      \<and> sorted_wrt (\<lambda>a b. total_seeders a \<ge> total_seeders b) gs
      \<and> (\<forall>c. map (\<lambda>g. key_of (hd (torrents g))) (filter (\<lambda>g. total_seeders g = c) gs)
             = filter (\<lambda>k. sum_list (map seeders (bucket k ts')) = c) (first_seen (map key_of ts'))))
   \<and> map total_seeders (returned_groups (group_torrents_deterministic seeders_example ''Test Anime''))
       = [100, 80]"
proof -
  let ?ts = "map (ensure_metadata n) ts"
  from gtd_closed [of ts n] obtain gs0 where
    r: "group_torrents_deterministic ts n = Inr (sort_by_seeders_desc gs0, ?ts)" and
    la: "list_all2 (\<lambda>k g. make_group (bucket k ?ts) = Inr g) (first_seen (map key_of ?ts)) gs0"
    by blast
  have st: "map (\<lambda>g. key_of (hd (torrents g))) (filter (\<lambda>g. total_seeders g = c) gs0)
            = filter (\<lambda>k. sum_list (map seeders (bucket k ?ts)) = c) (first_seen (map key_of ?ts))" for c
  proof (rule filter_corresponding [OF la])
    fix k g
    assume k: "k \<in> set (first_seen (map key_of ?ts))" and g: "make_group (bucket k ?ts) = Inr g"
    from g have t: "torrents g = bucket k ?ts" by (auto dest: make_group_fields)
    from k have "key_of (hd (bucket k ?ts)) = k" by (intro key_of_hd_bucket) simp
    with t show "key_of (hd (torrents g)) = k \<and>
       (total_seeders g = c \<longleftrightarrow> sum_list (map seeders (bucket k ?ts)) = c)"
      by (simp add: total_seeders_def)
  qed
  have general: "\<exists>gs ts'. group_torrents_deterministic ts n = Inr (gs, ts')
      \<and> sorted_wrt (\<lambda>a b. total_seeders a \<ge> total_seeders b) gs
      \<and> (\<forall>c. map (\<lambda>g. key_of (hd (torrents g))) (filter (\<lambda>g. total_seeders g = c) gs)
             = filter (\<lambda>k. sum_list (map seeders (bucket k ts')) = c) (first_seen (map key_of ts')))"
    using r sorted_desc [of gs0] st by (auto simp: stable_desc)
  have ex: "map total_seeders (returned_groups (group_torrents_deterministic seeders_example ''Test Anime''))
       = [100, 80]"
    by code_simp
  from general ex show ?thesis by blast
qed

text \<open>Witness of C4 on the example: two groups come back, in descending order of seeders.\<close>

theorem C4_sorted_by_total_seeders_witness:
  "\<exists>gs ts'. group_torrents_deterministic seeders_example ''Test Anime'' = Inr (gs, ts')
      \<and> length gs = 2
      \<and> sorted_wrt (\<lambda>a b. total_seeders a \<ge> total_seeders b) gs"
proof -
  from C4_sorted_by_total_seeders [of seeders_example "''Test Anime''"] obtain gs ts' where
    h: "group_torrents_deterministic seeders_example ''Test Anime'' = Inr (gs, ts')"
       "sorted_wrt (\<lambda>a b. total_seeders a \<ge> total_seeders b) gs"
    and ex: "map total_seeders (returned_groups (group_torrents_deterministic seeders_example ''Test Anime''))
       = [100, 80]"
    by (elim conjE exE) (rule that; assumption)
  from h(1) ex have "map total_seeders gs = [100, 80]" by (simp add: returned_groups_def)
  then have "length (map total_seeders gs) = 2" by simp
  then have "length gs = 2" by simp
  with h show ?thesis by blast
qed

text \<open>
  Claim C9. The group key is not injective in the six fields: the records with release group
  \<open>A|B\<close>, anime name \<open>C\<close> and with release group \<open>A\<close>, anime name \<open>B|C\<close> differ in two
  fields and have the same key, and two torrents carrying them are merged into one group.
\<close>

theorem C9_key_not_injective:
  "\<exists>m1 m2. release_group m1 \<noteq> release_group m2 \<and> anime_name m1 \<noteq> anime_name m2
      \<and> group_key m1 = group_key m2
      \<and> (\<forall>t1 t2 n. \<exists>g.
            group_torrents_deterministic [t1\<lparr>metadata := Some m1\<rparr>, t2\<lparr>metadata := Some m2\<rparr>] n
              = Inr ([g], [t1\<lparr>metadata := Some m1\<rparr>, t2\<lparr>metadata := Some m2\<rparr>])
            \<and> torrents g = [t1\<lparr>metadata := Some m1\<rparr>, t2\<lparr>metadata := Some m2\<rparr>])"
proof -
  let ?m1 = "TorrentMetadata_defaults\<lparr>release_group := ''A|B'', anime_name := ''C''\<rparr>"
  let ?m2 = "TorrentMetadata_defaults\<lparr>release_group := ''A'', anime_name := ''B|C''\<rparr>"
  have k: "group_key ?m1 = group_key ?m2"
    by (simp add: group_key_def TorrentMetadata_defaults_def)
  have "release_group ?m1 \<noteq> release_group ?m2" "anime_name ?m1 \<noteq> anime_name ?m2"
    by simp_all
  with k one_group [OF k] show ?thesis by blast
qed

text \<open>
  Claim C10. A call returns and leaves the input list with metadata on every torrent: a
  torrent that had none carries the fallback record (the given anime name, every other field at
  its default), the others are unchanged. Every torrent of the list is in exactly one returned
  group, the groups' torrent lists together are a permutation of the list, and each group holds
  the torrents of one key in the order of the list.
\<close>

theorem C10_partition:
  "\<exists>gs ts'. group_torrents_deterministic ts n = Inr (gs, ts')
     \<and> ts' = map (\<lambda>t. case metadata t of
                         None \<Rightarrow> t\<lparr>metadata := Some (TorrentMetadata_defaults\<lparr>anime_name := n\<rparr>)\<rparr>
                       | Some m \<Rightarrow> t) ts
     \<and> (\<forall>t\<in>set ts'. metadata t \<noteq> None)
     \<and> (\<forall>t\<in>set ts'. \<exists>!g. g \<in> set gs \<and> t \<in> set (torrents g))
     \<and> mset (concat (map torrents gs)) = mset ts'
     \<and> (\<forall>g\<in>set gs. \<exists>k. torrents g = filter (\<lambda>t. map_option group_key (metadata t) = Some k) ts')"
proof -
  let ?ts = "map (ensure_metadata n) ts"
  let ?K = "first_seen (map key_of ?ts)"
  from gtd_closed [of ts n] obtain gs0 where
    r: "group_torrents_deterministic ts n = Inr (sort_by_seeders_desc gs0, ?ts)" and
    la: "list_all2 (\<lambda>k g. make_group (bucket k ?ts) = Inr g) ?K gs0"
    by blast
  let ?gs = "sort_by_seeders_desc gs0"
  have md: "\<forall>t\<in>set ?ts. metadata t \<noteq> None" by auto
  have c1: "?ts = map (\<lambda>t. case metadata t of
                         None \<Rightarrow> t\<lparr>metadata := Some (TorrentMetadata_defaults\<lparr>anime_name := n\<rparr>)\<rparr>
                       | Some m \<Rightarrow> t) ts"
    by (rule map_cong) (auto simp: ensure_metadata_def split: option.splits)
  have bk: "bucket k ?ts = filter (\<lambda>t. map_option group_key (metadata t) = Some k) ?ts" for k
    unfolding bucket_def using md
    by (intro filter_cong refl) (auto simp: key_of_def split: option.splits)
  have grp: "\<exists>k\<in>set (map key_of ?ts). make_group (bucket k ?ts) = Inr g" if "g \<in> set ?gs" for g
    using gtd_groups [OF r that] .
  have c5: "\<forall>g\<in>set ?gs. \<exists>k. torrents g = filter (\<lambda>t. map_option group_key (metadata t) = Some k) ?ts"
  proof
    fix g assume "g \<in> set ?gs"
    from grp [OF this] obtain k where "make_group (bucket k ?ts) = Inr g" by blast
    then have "torrents g = bucket k ?ts" by (auto dest: make_group_fields)
    then show "\<exists>k. torrents g = filter (\<lambda>t. map_option group_key (metadata t) = Some k) ?ts"
      using bk by auto
  qed
  have c4: "mset (concat (map torrents ?gs)) = mset ?ts"
  proof -
    have "mset (concat (map torrents ?gs)) = mset (concat (map torrents gs0))"
      by (rule mset_concat_map_cong) simp
    also have "\<dots> = mset (concat (map (\<lambda>k. bucket k ?ts) ?K))"
      using list_all2_torrents [OF la] by simp
    also have "\<dots> = mset ?ts"
      by (rule mset_concat_buckets) auto
    finally show ?thesis .
  qed
  have c3: "\<forall>t\<in>set ?ts. \<exists>!g. g \<in> set ?gs \<and> t \<in> set (torrents g)"
  proof
    fix t assume t: "t \<in> set ?ts"
    then have "key_of t \<in> set ?K" by auto
    then obtain i where i: "i < length ?K" "?K ! i = key_of t"
      unfolding in_set_conv_nth by blast
    have gi: "make_group (bucket (key_of t) ?ts) = Inr (gs0 ! i)" "i < length gs0"
      using list_all2_nthD [OF la i(1)] list_all2_lengthD [OF la] i by simp_all
    then have "torrents (gs0 ! i) = bucket (key_of t) ?ts" by (auto dest: make_group_fields)
    with t have "t \<in> set (torrents (gs0 ! i))" by (simp add: bucket_def)
    moreover have "gs0 ! i \<in> set ?gs" using gi(2) by simp
    moreover have "g = gs0 ! i" if "g \<in> set ?gs" "t \<in> set (torrents g)" for g
    proof -
      from grp [OF that(1)] obtain k where k: "make_group (bucket k ?ts) = Inr g" by blast
      then have "torrents g = bucket k ?ts" by (auto dest: make_group_fields)
      with that(2) have "k = key_of t" by (simp add: bucket_def)
      with k gi(1) show ?thesis by simp
    qed
    ultimately show "\<exists>!g. g \<in> set ?gs \<and> t \<in> set (torrents g)" by blast
  qed
  show ?thesis
    using r c1 md c3 c4 c5 by (intro exI [of _ ?gs] exI [of _ ?ts] conjI) simp_all
qed

text \<open>
  Witness of C10 on three torrents of which the first and the third have no metadata: the
  list after the call and the list of groups are not empty.
\<close>

theorem C10_partition_witness:
  "\<exists>gs ts'. group_torrents_deterministic no_metadata_example ''Fallback Anime'' = Inr (gs, ts')
     \<and> length ts' = 3 \<and> gs \<noteq> []
     \<and> (\<forall>t\<in>set ts'. metadata t \<noteq> None)
     \<and> (\<forall>t\<in>set ts'. \<exists>!g. g \<in> set gs \<and> t \<in> set (torrents g))
     \<and> mset (concat (map torrents gs)) = mset ts'
     \<and> (\<forall>g\<in>set gs. \<exists>k. torrents g = filter (\<lambda>t. map_option group_key (metadata t) = Some k) ts')"
proof -
  from C10_partition [of no_metadata_example "''Fallback Anime''"] obtain gs ts' where
    h: "group_torrents_deterministic no_metadata_example ''Fallback Anime'' = Inr (gs, ts')"
       "ts' = map (\<lambda>t. case metadata t of
                         None \<Rightarrow> t\<lparr>metadata := Some (TorrentMetadata_defaults\<lparr>anime_name := ''Fallback Anime''\<rparr>)\<rparr>
                       | Some m \<Rightarrow> t) no_metadata_example"
       "\<forall>t\<in>set ts'. metadata t \<noteq> None"
       "\<forall>t\<in>set ts'. \<exists>!g. g \<in> set gs \<and> t \<in> set (torrents g)"
       "mset (concat (map torrents gs)) = mset ts'"
       "\<forall>g\<in>set gs. \<exists>k. torrents g = filter (\<lambda>t. map_option group_key (metadata t) = Some k) ts'"
    by blast
  from h(2) have len: "length ts' = 3" by (simp add: no_metadata_example_def)
  then have "ts' \<noteq> []" by auto
  with h(5) have "gs \<noteq> []" by auto
  with h len show ?thesis by blast
qed


section \<open>Claim about extract_anime_name\<close>

lemma prefix_hd: "prefix a s \<Longrightarrow> a \<noteq> [] \<Longrightarrow> hd a = hd s"
  by (auto simp: prefix_def)

lemma unknown_fixed: "extract_anime_name ''Unknown'' = ''Unknown''"
  by code_simp

text \<open>
  Without a newline in the title and without a Roman-numeral season form in the result, the
  second pass changes nothing.
\<close>

lemma idempotent_without_roman:
  assumes nl: "CHR 0x0A \<notin> set title"
    and rom: "re_search name_roman (extract_anime_name title) = None"
  shows "extract_anime_name (extract_anime_name title) = extract_anime_name title"
proof -
  define t0 where "t0 = strip (re_sub PATTERNS_release_group_start [] title)"
  define t1 where "t1 = re_sub name_season [] t0"
  define t2 where "t2 = re_sub name_ordinal_num [] t1"
  define t3 where "t3 = re_sub name_ordinal_word [] t2"
  define t4 where "t4 = re_sub name_roman [] t3"
  define t5 where "t5 = re_sub name_part [] t4"
  define t6 where "t6 = re_sub name_cour [] t5"
  define t7 where "t7 = re_sub name_episode [] t6"
  define t8 where "t8 = re_sub name_dash_number [] t7"
  define t9 where "t9 = re_sub name_last_bracket [] t8"
  define t10 where "t10 = re_sub name_bracket_tail [] t9"
  have ean: "extract_anime_name title = (if strip t10 = [] then ''Unknown'' else strip t10)"
    by (simp add: extract_anime_name_def Let_def t0_def t1_def t2_def t3_def t4_def t5_def
        t6_def t7_def t8_def t9_def t10_def)
  from nl have "nl_free title" by (simp add: nl_free_def)
  then have n0: "nl_free t0"
    unfolding t0_def by (intro nl_free_strip nl_free_re_sub)
  have s1: "prefix t1 t0 \<and> clean (hits name_season) t1"
    unfolding t1_def
    by (rule name_step [OF to_end_name_season ctxfree_name_season nonnull_name_patterns(1) n0])
  then have n1: "nl_free t1" using n0 nl_free_prefix by blast
  have s2: "prefix t2 t1 \<and> clean (hits name_ordinal_num) t2"
    unfolding t2_def
    by (rule name_step [OF to_end_name_ordinal_num ctxfree_name_ordinal_num nonnull_name_patterns(2) n1])
  then have n2: "nl_free t2" using n1 nl_free_prefix by blast
  have s3: "prefix t3 t2 \<and> clean (hits name_ordinal_word) t3"
    unfolding t3_def
    by (rule name_step [OF to_end_name_ordinal_word ctxfree_name_ordinal_word nonnull_name_patterns(3) n2])
  then have n3: "nl_free t3" using n2 nl_free_prefix by blast
  have s4: "prefix t4 t3"
    unfolding t4_def by (rule re_sub_to_end_prefix [OF to_end_name_roman n3])
  then have n4: "nl_free t4" using n3 nl_free_prefix by blast
  have s5: "prefix t5 t4 \<and> clean (hits name_part) t5"
    unfolding t5_def
    by (rule name_step [OF to_end_name_part ctxfree_name_part nonnull_name_patterns(4) n4])
  then have n5: "nl_free t5" using n4 nl_free_prefix by blast
  have s6: "prefix t6 t5 \<and> clean (hits name_cour) t6"
    unfolding t6_def
    by (rule name_step [OF to_end_name_cour ctxfree_name_cour nonnull_name_patterns(5) n5])
  then have n6: "nl_free t6" using n5 nl_free_prefix by blast
  have s7: "prefix t7 t6 \<and> clean (hits name_episode) t7"
    unfolding t7_def
    by (rule name_step [OF to_end_name_episode ctxfree_name_episode nonnull_name_patterns(6) n6])
  then have n7: "nl_free t7" using n6 nl_free_prefix by blast
  have s8: "prefix t8 t7 \<and> clean (hits name_dash_number) t8"
    unfolding t8_def
    by (rule name_step [OF to_end_name_dash_number ctxfree_name_dash_number nonnull_name_patterns(7) n7])
  then have n8: "nl_free t8" using n7 nl_free_prefix by blast
  have s9: "prefix t9 t8"
    unfolding t9_def by (rule re_sub_to_end_prefix [OF to_end_name_last_bracket n8])
  then have n9: "nl_free t9" using n8 nl_free_prefix by blast
  have s10: "prefix t10 t9"
    unfolding t10_def by (rule re_sub_to_end_prefix [OF to_end_name_bracket_tail n9])
  have nb10: "\<forall>c\<in>set t10. \<not> one_of ''[('' c"
    unfolding t10_def re_sub_to_end [OF to_end_name_bracket_tail n9]
    by (rule cut_bracket_tail [OF n9])
  show ?thesis
  proof (cases "strip t10 = []")
    case True
    with ean unknown_fixed show ?thesis by simp
  next
    case False
    let ?R = "strip t10"
    from False have ne10: "t10 \<noteq> []" by auto
    have p8: "prefix t10 t8" using s10 s9 by (blast intro: prefix_order.trans)
    have p7: "prefix t10 t7" using p8 s8 by (blast intro: prefix_order.trans)
    have p6: "prefix t10 t6" using p7 s7 by (blast intro: prefix_order.trans)
    have p5: "prefix t10 t5" using p6 s6 by (blast intro: prefix_order.trans)
    have p4: "prefix t10 t4" using p5 s5 by (blast intro: prefix_order.trans)
    have p3: "prefix t10 t3" using p4 s4 by (blast intro: prefix_order.trans)
    have p2: "prefix t10 t2" using p3 s3 by (blast intro: prefix_order.trans)
    have p1: "prefix t10 t1" using p2 s2 by (blast intro: prefix_order.trans)
    have p0: "prefix t10 t0" using p1 s1 by (blast intro: prefix_order.trans)
    from p0 ne10 have ne0: "t0 \<noteq> []" by auto
    then have "\<not> is_space (hd t0)" unfolding t0_def by (rule strip_hd)
    with prefix_hd [OF p0 ne10] have "\<not> is_space (hd t10)" by simp
    with ne10 have pR: "prefix ?R t10" by (rule strip_prefix)
    have R: "extract_anime_name title = ?R" using ean False by simp
    have nbR: "\<forall>c\<in>set ?R. \<not> one_of ''[('' c"
    proof -
      from pR have "set ?R \<subseteq> set t10" by (rule set_mono_prefix)
      with nb10 show ?thesis by blast
    qed
    have e0: "re_sub PATTERNS_release_group_start [] ?R = ?R"
      by (rule re_sub_no_match) (rule no_bracket_no_match(1) [OF nbR])
    have e1: "re_sub name_season [] ?R = ?R"
      using s1 pR p1 by (intro clean_step_identity [OF ctxfree_name_season, of t1])
        (auto intro: prefix_order.trans)
    have e2: "re_sub name_ordinal_num [] ?R = ?R"
      using s2 pR p2 by (intro clean_step_identity [OF ctxfree_name_ordinal_num, of t2])
        (auto intro: prefix_order.trans)
    have e3: "re_sub name_ordinal_word [] ?R = ?R"
      using s3 pR p3 by (intro clean_step_identity [OF ctxfree_name_ordinal_word, of t3])
        (auto intro: prefix_order.trans)
    have e4: "re_sub name_roman [] ?R = ?R"
      using rom unfolding R by (rule re_sub_no_match)
    have e5: "re_sub name_part [] ?R = ?R"
      using s5 pR p5 by (intro clean_step_identity [OF ctxfree_name_part, of t5])
        (auto intro: prefix_order.trans)
    have e6: "re_sub name_cour [] ?R = ?R"
      using s6 pR p6 by (intro clean_step_identity [OF ctxfree_name_cour, of t6])
        (auto intro: prefix_order.trans)
    have e7: "re_sub name_episode [] ?R = ?R"
      using s7 pR p7 by (intro clean_step_identity [OF ctxfree_name_episode, of t7])
        (auto intro: prefix_order.trans)
    have e8: "re_sub name_dash_number [] ?R = ?R"
      using s8 pR p8 by (intro clean_step_identity [OF ctxfree_name_dash_number, of t8])
        (auto intro: prefix_order.trans)
    have e9: "re_sub name_last_bracket [] ?R = ?R"
      by (rule re_sub_no_match) (rule no_bracket_no_match(2) [OF nbR])
    have e10: "re_sub name_bracket_tail [] ?R = ?R"
      by (rule re_sub_no_match) (rule no_bracket_no_match(3) [OF nbR])
    have "extract_anime_name ?R = ?R"
      using False
      by (simp add: extract_anime_name_def Let_def e0 e1 e2 e3 e4 e5 e6 e7 e8 e9 e10)
    with R show ?thesis by simp
  qed
qed

text \<open>
  Claim C7, as it holds on the code. For a title without a newline, applying
  \<^verbatim>\<open>extract_anime_name\<close> to its own result returns the same string if and only if the
  result holds no Roman-numeral season form (\<open>Season\<close>, white space, a numeral of I, V, X that
  ends at a word boundary). A result that still holds such a form is changed by the second
  pass.
\<close>

theorem C7_idempotent_on_one_line:
  assumes nl: "CHR 0x0A \<notin> set title"
  shows "extract_anime_name (extract_anime_name title) = extract_anime_name title
         \<longleftrightarrow> re_search name_roman (extract_anime_name title) = None"
proof
  assume "extract_anime_name (extract_anime_name title) = extract_anime_name title"
  with roman_not_fixed [of "extract_anime_name title"]
  show "re_search name_roman (extract_anime_name title) = None" by blast
next
  assume "re_search name_roman (extract_anime_name title) = None"
  with nl show "extract_anime_name (extract_anime_name title) = extract_anime_name title"
    by (rule idempotent_without_roman)
qed

text \<open>
  Witness of C7: a title with a release group, an episode number and a quality tag. Its result
  holds no Roman-numeral form and is a fixed point.
\<close>

theorem C7_idempotent_on_one_line_witness:
  "CHR 0x0A \<notin> set ''[SubsPlease] Frieren - 01 (1080p)''
   \<and> re_search name_roman (extract_anime_name ''[SubsPlease] Frieren - 01 (1080p)'') = None
   \<and> extract_anime_name ''[SubsPlease] Frieren - 01 (1080p)'' = ''Frieren''
   \<and> extract_anime_name (extract_anime_name ''[SubsPlease] Frieren - 01 (1080p)'')
       = extract_anime_name ''[SubsPlease] Frieren - 01 (1080p)''"
proof -
  have h1: "CHR 0x0A \<notin> set ''[SubsPlease] Frieren - 01 (1080p)''" by simp
  have v: "extract_anime_name ''[SubsPlease] Frieren - 01 (1080p)'' = ''Frieren''" by code_simp
  have "re_search name_roman ''Frieren'' = None" by code_simp
  with v have h2: "re_search name_roman (extract_anime_name ''[SubsPlease] Frieren - 01 (1080p)'') = None"
    by simp
  from C7_idempotent_on_one_line [OF h1] h1 h2 v show ?thesis by simp
qed

text \<open>
  Counterexamples to C7 as stated. In \<open>Anime Season IPart 1\<close> the numeral is followed by a
  letter, so the Roman-numeral pattern does not match; the later \<open>Part\<close> pattern cuts the
  title after the numeral, and on the result \<open>Anime Season I\<close> the Roman-numeral pattern
  matches: the second pass returns \<open>Anime\<close>. In a title of two lines the patterns stop at the
  end of the first line, and the second pass strips a second leading bracket group.
\<close>

theorem C7_counterexample:
  "extract_anime_name ''Anime Season IPart 1'' = ''Anime Season I''
   \<and> extract_anime_name ''Anime Season I'' = ''Anime''
   \<and> extract_anime_name (''[A][B]'' @ [CHR 0x0A] @ ''foo'') = ''[B]'' @ [CHR 0x0A] @ ''foo''
   \<and> extract_anime_name (''[B]'' @ [CHR 0x0A] @ ''foo'') = ''foo''"
  by code_simp


section \<open>Claims about the metadata of a detail page\<close>

text \<open>
  Claim C5. The season resolver \<^verbatim>\<open>_extract_season_number\<close> is decided by the first of its
  six strategies that matches, in the order standard form, ordinal numeral, ordinal word,
  Roman numeral, \<open>Part\<close>, \<open>Cour\<close>. In particular a match of the standard form \<open>S<digits>\<close> or
  \<open>Season <digits>\<close> decides whatever \<open>Part\<close> or \<open>Cour\<close> say: its group is a nonempty run of
  digits, and the resolver returns the value of the run, or raises the \<^verbatim>\<open>ValueError\<close> of
  \<^verbatim>\<open>int\<close> when the run has more than 4300 digits. The resolver returns on every text of at
  most 4300 characters, and it raises nothing but that \<^verbatim>\<open>ValueError\<close>.
  \<^verbatim>\<open>extract_season\<close> resolves the title first, then the description, and returns
  \<open>Season 1\<close> when neither resolves. So \<open>Anime S01 Part 2\<close> gives \<open>Season 1\<close>,
  \<open>Anime 2nd Season - 01\<close> gives \<open>Season 2\<close> and \<open>Anime Season III\<close> gives \<open>Season 3\<close>.
\<close>

theorem C5_season_priority:
  "extract_season_number t = first_resolved (map (\<lambda>strategy. strategy t) season_strategies)
   \<and> (\<forall>m. re_search PATTERNS_season t = Some m
          \<longrightarrow> (\<exists>d. group m 1 = Some d \<and> digit_run d
                   \<and> extract_season_number t
                       = (if length d \<le> max_str_digits then Inr (Some (int (dec_value d)))
                          else Inl ValueError)))
   \<and> ((\<exists>r. extract_season_number t = Inr r)
        \<or> (extract_season_number t = Inl ValueError \<and> max_str_digits < length t))
   \<and> extract_season title d
       = (case first_resolved [extract_season_number title, extract_season_number d] of
            Inl e \<Rightarrow> Inl e
          | Inr (Some n) \<Rightarrow> Inr (''Season '' @ str_of_int n)
          | Inr None \<Rightarrow> Inr ''Season 1'')
   \<and> extract_season ''Anime S01 Part 2'' '''' = Inr ''Season 1''
   \<and> extract_season ''Anime 2nd Season - 01'' '''' = Inr ''Season 2''
   \<and> extract_season ''Anime Season III'' '''' = Inr ''Season 3''
   \<and> extract_season ''Anime - 01'' ''This is Season 3 of the anime'' = Inr ''Season 3''
   \<and> extract_season ''Anime S02E01'' ''Season 5 content'' = Inr ''Season 2''
   \<and> extract_season ''Anime - 01'' '''' = Inr ''Season 1''
   \<and> extract_season_number (CHR ''S'' # long_digits @ '' Part 2'') = Inl ValueError"
proof -
  have order: "extract_season_number t = first_resolved (map (\<lambda>strategy. strategy t) season_strategies)"
    by (rule season_number_strategies)
  have standard: "\<forall>m. re_search PATTERNS_season t = Some m
          \<longrightarrow> (\<exists>d. group m 1 = Some d \<and> digit_run d
                   \<and> extract_season_number t
                       = (if length d \<le> max_str_digits then Inr (Some (int (dec_value d)))
                          else Inl ValueError))"
    using season_standard by blast
  have returns: "(\<exists>r. extract_season_number t = Inr r)
        \<or> (extract_season_number t = Inl ValueError \<and> max_str_digits < length t)"
    by (rule season_number_cases)
  have title_first: "extract_season title d
       = (case first_resolved [extract_season_number title, extract_season_number d] of
            Inl e \<Rightarrow> Inl e
          | Inr (Some n) \<Rightarrow> Inr (''Season '' @ str_of_int n)
          | Inr None \<Rightarrow> Inr ''Season 1'')"
    by (rule season_title_first)
  have e1: "extract_season ''Anime S01 Part 2'' '''' = Inr ''Season 1''" by code_simp
  have e2: "extract_season ''Anime 2nd Season - 01'' '''' = Inr ''Season 2''" by code_simp
  have e3: "extract_season ''Anime Season III'' '''' = Inr ''Season 3''" by code_simp
  have e4: "extract_season ''Anime - 01'' ''This is Season 3 of the anime'' = Inr ''Season 3''"
    by code_simp
  have e5: "extract_season ''Anime S02E01'' ''Season 5 content'' = Inr ''Season 2''" by code_simp
  have e6: "extract_season ''Anime - 01'' '''' = Inr ''Season 1''" by code_simp
  have e7: "extract_season_number (CHR ''S'' # long_digits @ '' Part 2'') = Inl ValueError"
    by (rule season_number_long_digits)
  from order standard returns title_first e1 e2 e3 e4 e5 e6 e7 show ?thesis by blast
qed

text \<open>
  Witness of C5 on \<open>Anime S01 Part 2\<close>: the standard form and the \<open>Part\<close> form both match,
  with the numbers 1 and 2, and the resolver returns 1.
\<close>

theorem C5_season_priority_witness:
  "re_search PATTERNS_season ''Anime S01 Part 2'' = Some [(1, ''01'')]
   \<and> re_search PATTERNS_season_part ''Anime S01 Part 2'' = Some [(1, ''2'')]
   \<and> digit_run ''01''
   \<and> extract_season_number ''Anime S01 Part 2'' = Inr (Some 1)"
proof -
  have h: "re_search PATTERNS_season ''Anime S01 Part 2'' = Some [(1, ''01'')]" by code_simp
  have p: "re_search PATTERNS_season_part ''Anime S01 Part 2'' = Some [(1, ''2'')]" by code_simp
  have v: "int (dec_value ''01'') = 1" by code_simp
  from C5_season_priority [of "''Anime S01 Part 2''"] h obtain d where
    d: "group [(1, ''01'')] 1 = Some d" "digit_run d"
      "extract_season_number ''Anime S01 Part 2''
         = (if length d \<le> max_str_digits then Inr (Some (int (dec_value d))) else Inl ValueError)"
    by blast
  from d(1) have "d = ''01''" by (simp add: group_def)
  with d(2,3) v h p show ?thesis by (simp add: max_str_digits_def)
qed

text \<open>
  Claim C6. \<^verbatim>\<open>extract_metadata_from_detail\<close> returns a record, unless the title or the
  description has more than 4300 characters and a conversion of \<^verbatim>\<open>extract_season\<close> or
  \<^verbatim>\<open>extract_episode\<close> raises \<^verbatim>\<open>ValueError\<close>. The release group of the record is the
  submitter of the detail record when that is present, not empty and not \<open>Anonymous\<close>;
  otherwise it is extracted from the title. The extraction from the title returns the name in
  a leading \<open>[Name]\<close> or \<open>(Name)\<close>, whatever follows; without a leading group, the token after
  the last hyphen of a title that ends in \<open>-TOKEN\<close>, or \<open>-TOKEN\<close> and a file extension of two
  to four lower-case letters; and \<open>Unknown\<close> when neither form matches. With the title
  \<open>[GroupName] Anime - 01\<close> the submitter \<open>Anonymous\<close> gives \<open>GroupName\<close> and the submitter
  \<open>TrustedUploader\<close> gives \<open>TrustedUploader\<close>. With a title that holds \<open>S\<close> and 4301 digits
  the call raises \<^verbatim>\<open>ValueError\<close>, whatever the submitter.
\<close>

theorem C6_release_group:
  "((\<exists>md. extract_metadata_from_detail detail = Inr md
          \<and> release_group md
              = (if dict_get detail ''submitter'' ''Anonymous'' \<noteq> []
                    \<and> dict_get detail ''submitter'' ''Anonymous'' \<noteq> ''Anonymous''
                 then dict_get detail ''submitter'' ''Anonymous''
                 else extract_release_group (dict_get detail ''title'' '''')))
     \<or> (extract_metadata_from_detail detail = Inl ValueError
         \<and> (max_str_digits < length (dict_get detail ''title'' '''')
             \<or> max_str_digits < length (dict_get detail ''description'' ''''))))
   \<and> (nm \<noteq> [] \<and> CHR '']'' \<notin> set nm
        \<longrightarrow> extract_release_group (CHR ''['' # nm @ CHR '']'' # rest) = nm)
   \<and> (nm \<noteq> [] \<and> CHR '')'' \<notin> set nm
        \<longrightarrow> extract_release_group (CHR ''('' # nm @ CHR '')'' # rest) = nm)
   \<and> (re_search PATTERNS_release_group_start (pre @ CHR ''-'' # tok @ ext) = None
        \<and> tok \<noteq> [] \<and> (\<forall>c\<in>set tok. ascii_alnum c)
        \<and> (ext = [] \<or> (\<exists>e. ext = CHR ''.'' # e \<and> 2 \<le> length e \<and> length e \<le> 4
                              \<and> (\<forall>c\<in>set e. ascii_lower c)))
        \<longrightarrow> extract_release_group (pre @ CHR ''-'' # tok @ ext) = tok)
   \<and> (re_search PATTERNS_release_group_start u = None
        \<and> re_search PATTERNS_release_group_end u = None
        \<longrightarrow> extract_release_group u = ''Unknown'')
   \<and> map_sum id release_group (extract_metadata_from_detail
         (sample_detail ''[GroupName] Anime - 01'' ''Anonymous'')) = Inr ''GroupName''
   \<and> map_sum id release_group (extract_metadata_from_detail
         (sample_detail ''[GroupName] Anime - 01'' ''TrustedUploader'')) = Inr ''TrustedUploader''
   \<and> map_sum id release_group (extract_metadata_from_detail
         (sample_detail ''[GroupName] Anime - 01'' '''')) = Inr ''GroupName''
   \<and> extract_metadata_from_detail
         (sample_detail (CHR ''S'' # long_digits @ '' Part 2'') ''TrustedUploader'') = Inl ValueError"
proof -
  have e1: "map_sum id release_group (extract_metadata_from_detail
         (sample_detail ''[GroupName] Anime - 01'' ''Anonymous'')) = Inr ''GroupName''"
    by code_simp
  have e2: "map_sum id release_group (extract_metadata_from_detail
         (sample_detail ''[GroupName] Anime - 01'' ''TrustedUploader'')) = Inr ''TrustedUploader''"
    by code_simp
  have e3: "map_sum id release_group (extract_metadata_from_detail
         (sample_detail ''[GroupName] Anime - 01'' '''')) = Inr ''GroupName''"
    by code_simp
  have e4: "extract_metadata_from_detail
         (sample_detail (CHR ''S'' # long_digits @ '' Part 2'') ''TrustedUploader'') = Inl ValueError"
    by (simp add: extract_metadata_from_detail_def Let_def sample_detail_def dict_get_def
        extract_season_def season_number_long_digits)
  from metadata_cases [of detail] release_group_leading [of nm rest]
    release_group_trailing [of pre tok ext] release_group_unknown [of u] e1 e2 e3 e4
  show ?thesis by blast
qed

text \<open>
  Witness of C6: the leading group \<open>GroupName\<close>, the scene title
  \<open>Anime.S01E01-RELEASE.mkv\<close> with the trailing token \<open>RELEASE\<close>, and a title with neither
  form.
\<close>

theorem C6_release_group_witness:
  "extract_release_group ''[GroupName] Anime - 01'' = ''GroupName''
   \<and> extract_release_group ''(GroupName) Anime - 01'' = ''GroupName''
   \<and> re_search PATTERNS_release_group_start ''Anime.S01E01-RELEASE.mkv'' = None
   \<and> extract_release_group ''Anime.S01E01-RELEASE.mkv'' = ''RELEASE''
   \<and> re_search PATTERNS_release_group_start ''Just an anime title'' = None
   \<and> re_search PATTERNS_release_group_end ''Just an anime title'' = None
   \<and> extract_release_group ''Just an anime title'' = ''Unknown''"
proof -
  have n: "''GroupName'' \<noteq> [] \<and> CHR '']'' \<notin> set ''GroupName'' \<and> CHR '')'' \<notin> set ''GroupName''"
    by simp
  have s: "re_search PATTERNS_release_group_start (''Anime.S01E01'' @ CHR ''-'' # ''RELEASE'' @ ''.mkv'') = None"
    by code_simp
  have t: "''RELEASE'' \<noteq> [] \<and> (\<forall>c\<in>set ''RELEASE''. ascii_alnum c)"
    by code_simp
  have x: "''.mkv'' = CHR ''.'' # ''mkv'' \<and> 2 \<le> length ''mkv'' \<and> length ''mkv'' \<le> 4
             \<and> (\<forall>c\<in>set ''mkv''. ascii_lower c)"
    by code_simp
  then have x': "''.mkv'' = [] \<or> (\<exists>e. ''.mkv'' = CHR ''.'' # e \<and> 2 \<le> length e \<and> length e \<le> 4
                              \<and> (\<forall>c\<in>set e. ascii_lower c))"
    by blast
  have u1: "re_search PATTERNS_release_group_start ''Just an anime title'' = None" by code_simp
  have u2: "re_search PATTERNS_release_group_end ''Just an anime title'' = None" by code_simp
  from C6_release_group [of _ "''GroupName''" "'' Anime - 01''" "''Anime.S01E01''" "''RELEASE''"
      "''.mkv''" "''Just an anime title''"] n s t x' u1 u2
  have "extract_release_group (CHR ''['' # ''GroupName'' @ CHR '']'' # '' Anime - 01'') = ''GroupName''
    \<and> extract_release_group (CHR ''('' # ''GroupName'' @ CHR '')'' # '' Anime - 01'') = ''GroupName''
    \<and> extract_release_group (''Anime.S01E01'' @ CHR ''-'' # ''RELEASE'' @ ''.mkv'') = ''RELEASE''
    \<and> extract_release_group ''Just an anime title'' = ''Unknown''"
    by blast
  with s u1 u2 show ?thesis by simp
qed

text \<open>
  Claim C8. On the empty list \<^verbatim>\<open>group_torrents_deterministic\<close> returns the empty list of
  groups, not an error, whatever the fallback name. On a detail record with empty title,
  description and category and the submitter \<open>Anonymous\<close>, and also on a record with no entry
  at all, \<^verbatim>\<open>extract_metadata_from_detail\<close> returns, and the record it returns has the
  defaults: name \<open>Unknown\<close>, season \<open>Season 1\<close>, empty episode, quality \<open>Unknown\<close>, release
  group \<open>Unknown\<close>.
\<close>

theorem C8_empty_input:
  "group_torrents_deterministic [] n = Inr ([], [])
   \<and> map_sum id anime_name (extract_metadata_from_detail empty_detail) = Inr ''Unknown''
   \<and> map_sum id season (extract_metadata_from_detail empty_detail) = Inr ''Season 1''
   \<and> map_sum id episode (extract_metadata_from_detail empty_detail) = Inr ''''
   \<and> map_sum id TorrentMetadata.quality (extract_metadata_from_detail empty_detail) = Inr ''Unknown''
   \<and> map_sum id release_group (extract_metadata_from_detail empty_detail) = Inr ''Unknown''
   \<and> extract_metadata_from_detail empty_detail
       = Inr \<lparr>anime_name = ''Unknown'', season = ''Season 1'', episode = '''',
              quality = ''Unknown'', audio_language = ''Japanese'',
              subtitle_language = ''Unknown'', release_group = ''Unknown'',
              description = ''''\<rparr>
   \<and> extract_metadata_from_detail Map.empty = extract_metadata_from_detail empty_detail"
proof -
  have g: "group_torrents_deterministic [] n = Inr ([], [])"
    by (simp add: group_torrents_deterministic_def)
  have v: "extract_metadata_from_detail empty_detail
             = Inr \<lparr>anime_name = ''Unknown'', season = ''Season 1'', episode = '''',
                    quality = ''Unknown'', audio_language = ''Japanese'',
                    subtitle_language = ''Unknown'', release_group = ''Unknown'',
                    description = ''''\<rparr>"
    by code_simp
  have w: "extract_metadata_from_detail Map.empty
             = Inr \<lparr>anime_name = ''Unknown'', season = ''Season 1'', episode = '''',
                    quality = ''Unknown'', audio_language = ''Japanese'',
                    subtitle_language = ''Unknown'', release_group = ''Unknown'',
                    description = ''''\<rparr>"
    by code_simp
  from g v w show ?thesis by simp
qed


end
